theory Spec2Isabelle
  imports Main "HOL-Library.Signed_Division" "HOL-Library.Multiset" "HOL-Library.Sublist"
begin

section \<open>Go integers and panics\<close>

text \<open>
  Go's \<open>int\<close> is modelled as \<open>int\<close>. The only arithmetic the modelled code performs on
  values that are not loop counters is \<open>/\<close>, \<open>%\<close> and \<open>+ 1\<close> in the work splitters; Go's
  \<open>/\<close> truncates toward zero and \<open>%\<close> takes the sign of the dividend, which is
  \<open>sdiv\<close> and \<open>smod\<close>. A run-time panic is a value of \<open>panic\<close>.
\<close>

datatype panic = DivideByZero | MakeSliceLenOutOfRange | IndexOutOfRange

section \<open>Work splitting (cmd/example)\<close>

text \<open>\<open>type Task struct{ Count int }\<close>\<close>

record Task =
  Count :: int

text \<open>
  The splitter closure of \<open>cmd/example/multi_node/main.go\<close>, lines 37-49:
  \<^verbatim>\<open>
  base := req.Total / nWorkers
  rem := req.Total % nWorkers
  tasks := make([]Task, nWorkers)
  for j := 0; j < nWorkers; j++ {
      extra := 0
      if j < rem { extra = 1 }
      tasks[j] = Task{Count: base + extra}
  }
  return tasks
  \<close>
  The loop is \<open>splitter_loop\<close>; an assignment \<open>tasks[j] = ...\<close> outside the slice panics.
\<close>

function splitter_loop :: "int \<Rightarrow> int \<Rightarrow> int \<Rightarrow> int \<Rightarrow> Task list \<Rightarrow> panic + Task list" where
  "splitter_loop base rem nWorkers j tasks =
     (if j < nWorkers then
        (let extra = (if j < rem then 1 else 0) in
         if 0 \<le> j \<and> nat j < length tasks
         then splitter_loop base rem nWorkers (j + 1) (tasks[nat j := \<lparr>Count = base + extra\<rparr>])
         else Inl IndexOutOfRange)
      else Inr tasks)"
  by pat_completeness auto
termination
  by (relation "measure (\<lambda>(base, rem, nWorkers, j, tasks). nat (nWorkers - j))") auto

declare splitter_loop.simps [simp del]

definition splitter :: "int \<Rightarrow> int \<Rightarrow> panic + Task list" where
  "splitter tot nWorkers =
     (if nWorkers = 0 then Inl DivideByZero
      else let base = tot sdiv nWorkers;
               rem = tot smod nWorkers
           in if nWorkers < 0 then Inl MakeSliceLenOutOfRange
              else splitter_loop base rem nWorkers 0 (replicate (nat nWorkers) \<lparr>Count = 0\<rparr>))"

text \<open>
  The split in \<open>main\<close> of \<open>cmd/example/monte-carlo/main.go\<close>, lines 33-46 (the same code
  is in \<open>cmd/example/single_node/main.go\<close>): the slice is made first, the loop ranges over
  it and also accumulates \<open>totalAllocated\<close>.
  \<^verbatim>\<open>
  tasks := make([]Task, numWorkers)
  chunk := nTests / numWorkers
  remainder := nTests % numWorkers
  var totalAllocated int
  for i := range tasks {
      extraPoints := 0
      if i < remainder { extraPoints = 1 }
      tasks[i] = Task{Count: chunk + extraPoints}
      totalAllocated += tasks[i].Count
  }
  \<close>
\<close>

function main_split_loop :: "int \<Rightarrow> int \<Rightarrow> nat \<Rightarrow> Task list \<Rightarrow> int \<Rightarrow> Task list \<times> int" where
  "main_split_loop chunk remainder i tasks totalAllocated =
     (if i < length tasks then
        (let extraPoints = (if int i < remainder then 1 else 0);
             tasks' = tasks[i := \<lparr>Count = chunk + extraPoints\<rparr>]
         in main_split_loop chunk remainder (Suc i) tasks' (totalAllocated + Count (tasks' ! i)))
      else (tasks, totalAllocated))"
  by pat_completeness auto
termination
  by (relation "measure (\<lambda>(chunk, remainder, i, tasks, totalAllocated). length tasks - i)") auto

declare main_split_loop.simps [simp del]

definition main_split :: "int \<Rightarrow> int \<Rightarrow> panic + (Task list \<times> int)" where
  "main_split nTests numWorkers =
     (if numWorkers < 0 then Inl MakeSliceLenOutOfRange
      else if numWorkers = 0 then Inl DivideByZero
      else let tasks = replicate (nat numWorkers) \<lparr>Count = 0\<rparr>;
               chunk = nTests sdiv numWorkers;
               remainder = nTests smod numWorkers
           in Inr (main_split_loop chunk remainder 0 tasks 0))"

text \<open>The value every slot gets: the quotient, plus one for the first \<open>rem\<close> slots.\<close>

definition share :: "int \<Rightarrow> int \<Rightarrow> nat \<Rightarrow> int" where
  "share tot n j = tot div n + (if int j < tot mod n then 1 else 0)"

section \<open>Executor configuration (pkg/workerpool/pool.go, lines 11-43)\<close>

text \<open>
  \<open>type PoolOptions struct { NumWorkers int }\<close>; a \<open>PoolOptionFunc\<close> mutates the options
  it is given, so it is a function from the options to the updated options.
  \<open>WorkerPoolExecutor\<close> only embeds \<open>PoolOptions\<close>, so the executor is its options.
  \<open>runtime.NumCPU()\<close> is the parameter \<open>numCPU\<close>.
\<close>

record PoolOptions =
  NumWorkers :: int

type_synonym PoolOptionFunc = "PoolOptions \<Rightarrow> PoolOptions"

definition defaultOpts :: "int \<Rightarrow> PoolOptions" where
  "defaultOpts numCPU = \<lparr>NumWorkers = numCPU\<rparr>"

definition WithWorkers :: "int \<Rightarrow> PoolOptionFunc" where
  "WithWorkers num = (\<lambda>opts. opts\<lparr>NumWorkers := num\<rparr>)"

text \<open>\<open>New\<close>: \<open>o := defaultOpts(); for _, fn := range opts { fn(&o) }\<close>.\<close>

definition New :: "int \<Rightarrow> PoolOptionFunc list \<Rightarrow> PoolOptions" where
  "New numCPU opts = foldl (\<lambda>opt fn. fn opt) (defaultOpts numCPU) opts"

text \<open>
  The compute server's constructors (\<open>serve.New(workers ...int)\<close>, pkg/serve/job.go lines
  176-179 and 333-336, pkg/serve/router.go lines 41-44) choose their worker count by
  \<^verbatim>\<open>
  numWorkers := runtime.NumCPU()
  if len(workers) > 0 && workers[0] > 0 { numWorkers = workers[0] }
  \<close>
\<close>

definition serve_numWorkers :: "int \<Rightarrow> int list \<Rightarrow> int" where
  "serve_numWorkers numCPU workers =
     (if length workers > 0 \<and> workers ! 0 > 0 then workers ! 0 else numCPU)"

section \<open>Job registry (pkg/serve/job.go, lines 13-149)\<close>

text \<open>
  The registry is the slice \<open>Jobs\<close> of the compute server, created empty
  (\<open>Jobs: make([]Job, 0)\<close>, line 189) and reached by the three handlers that
  \<open>createJobRoute\<close> installs. A handler is modelled as a function from the decoded request
  and the slice to the response and the new slice. Of a response the model keeps the
  status code and what the body carries; the wording of error texts built with
  \<open>fmt.Sprintf\<close> and a failure of the response writer while encoding are left out.
\<close>

record Resources =
  Cpu :: string
  Memory :: string

type_synonym JobStatus = string

definition StatusPending :: JobStatus where "StatusPending = ''pending''"
definition StatusRunning :: JobStatus where "StatusRunning = ''running''"
definition StatusCompleted :: JobStatus where "StatusCompleted = ''completed''"
definition StatusFailed :: JobStatus where "StatusFailed = ''failed''"

text \<open>A Go \<open>map[string]string\<close>; \<open>None\<close> is the nil map, \<open>make(map[string]string)\<close> is
  \<open>Some Map.empty\<close>.\<close>

type_synonym strmap = "(string \<rightharpoonup> string) option"

record Job =
  ID :: int
  Status :: JobStatus
  Resources :: Resources
  Input :: strmap
  Output :: strmap

text \<open>\<open>NewJob\<close> (lines 35-49); \<open>Inl\<close> carries the text of the returned error.\<close>

definition NewJob :: "int \<Rightarrow> Resources \<Rightarrow> strmap \<Rightarrow> string + Job" where
  "NewJob jid res inp =
     (if jid \<le> 0 then Inl ''id must be > 0''
      else if Cpu res = [] \<or> Memory res = [] then
        Inl ''resources.cpu and resources.memory are required''
      else Inr \<lparr>ID = jid, Status = StatusPending, Resources = res, Input = inp,
                Output = Some Map.empty\<rparr>)"

text \<open>What a response body carries: the encoded jobs, one encoded job, the conflict
  object with its \<open>job_id\<close>, or the error text of \<open>http.Error\<close> by its kind.\<close>

datatype payload =
    JobList "Job list"
  | OneJob Job
  | Conflict int
  | InvalidJSON
  | ValidationError string
  | InvalidJobID
  | NotFound int
  | NoBody

record response =
  code :: nat
  payload :: payload

text \<open>\<open>jobExists\<close> (lines 51-73): the loop sets \<open>exists\<close> when an ID matches and does
  not leave early; when \<open>exists\<close>, the conflict response is written to \<open>w\<close> (status 409
  also when encoding the body fails). The result is \<open>exists\<close> and what was written.\<close>

definition jobExists :: "Job \<Rightarrow> Job list \<Rightarrow> bool \<times> response option" where
  "jobExists newJob jobs =
     (let exists = foldl (\<lambda>exists job. if ID newJob = ID job then True else exists) False jobs
      in (exists, if exists then Some \<lparr>code = 409, payload = Conflict (ID newJob)\<rparr> else None))"

text \<open>The body of a create request as the decoder leaves it (\<open>type jobRequest\<close>, lines
  119-123); a field missing from the JSON has its zero value.\<close>

record jobRequest =
  req_ID :: int
  req_Resources :: Resources
  req_Input :: strmap

text \<open>\<open>GET /jobs\<close> (lines 84-89).\<close>

definition get_jobs :: "Job list \<Rightarrow> response \<times> Job list" where
  "get_jobs jobs = (\<lparr>code = 200, payload = JobList jobs\<rparr>, jobs)"

text \<open>\<open>GET /jobs/{id}\<close> (lines 91-116). \<open>idParam\<close> is the result of \<open>strconv.Atoi\<close> on
  the URL parameter, \<open>None\<close> when it returns an error; the loop returns the first job
  with that ID.\<close>

fun find_job :: "int \<Rightarrow> Job list \<Rightarrow> Job option" where
  "find_job jid [] = None"
| "find_job jid (job # jobs) = (if ID job = jid then Some job else find_job jid jobs)"

definition get_job :: "int option \<Rightarrow> Job list \<Rightarrow> response \<times> Job list" where
  "get_job idParam jobs =
     (case idParam of
        None \<Rightarrow> (\<lparr>code = 400, payload = InvalidJobID\<rparr>, jobs)
      | Some jid \<Rightarrow>
          (case find_job jid jobs of
             Some job \<Rightarrow> (\<lparr>code = 200, payload = OneJob job\<rparr>, jobs)
           | None \<Rightarrow> (\<lparr>code = 404, payload = NotFound jid\<rparr>, jobs)))"

text \<open>The response a handler leaves when it returns after \<open>w\<close> was written to, or not
  at all (the server then answers 200 with an empty body).\<close>

definition written :: "response option \<Rightarrow> response" where
  "written w = (case w of Some r \<Rightarrow> r | None \<Rightarrow> \<lparr>code = 200, payload = NoBody\<rparr>)"

text \<open>\<open>POST /jobs\<close> (lines 118-148). \<open>body\<close> is the decoded request, \<open>None\<close> when the
  strict decoder returns an error. The job is validated by \<open>NewJob\<close>, then looked up by
  \<open>jobExists\<close>, then appended: \<open>*jobs = append(*jobs, newJob)\<close>.\<close>

definition post_jobs :: "jobRequest option \<Rightarrow> Job list \<Rightarrow> response \<times> Job list" where
  "post_jobs body jobs =
     (case body of
        None \<Rightarrow> (\<lparr>code = 400, payload = InvalidJSON\<rparr>, jobs)
      | Some jr \<Rightarrow>
          (case NewJob (req_ID jr) (req_Resources jr) (req_Input jr) of
             Inl err \<Rightarrow> (\<lparr>code = 400, payload = ValidationError err\<rparr>, jobs)
           | Inr newJob \<Rightarrow>
               (case jobExists newJob jobs of (exists, w) \<Rightarrow>
                  if exists then (written w, jobs)
                  else (\<lparr>code = 200, payload = OneJob newJob\<rparr>, jobs @ [newJob]))))"

text \<open>The registry operations: a request, and the handler that serves it, run from its
  first to its last statement on the slice it finds.\<close>

datatype request = ListJobs | GetJob "int option" | CreateJob "jobRequest option"

fun handle :: "request \<Rightarrow> Job list \<Rightarrow> response \<times> Job list" where
  "handle ListJobs jobs = get_jobs jobs"
| "handle (GetJob idParam) jobs = get_job idParam jobs"
| "handle (CreateJob body) jobs = post_jobs body jobs"

text \<open>
  The handlers do not run one after the other. The server is started with
  \<open>http.ListenAndServe(addr, s.Router)\<close> (\<open>Run\<close> of the compute server), which serves
  every connection in a goroutine of its own, and the handlers reach the slice through the
  shared pointer \<open>jobs\<close> without a lock. So the registry is modelled as a transition
  system: the shared slice, and for every request that has arrived the statement its
  handler is at, among the statements that read or write \<open>*jobs\<close>:
  \<^item> \<open>AtList\<close>: \<open>GET /jobs\<close> before line 86, which encodes \<open>*jobs\<close>;
  \<^item> \<open>AtGet idParam\<close>: \<open>GET /jobs/{id}\<close> before its loop over \<open>*jobs\<close> (line 102);
  \<^item> \<open>AtCheck newJob\<close>: \<open>POST /jobs\<close> before line 138, \<open>jobExists(w, newJob, *jobs)\<close>;
  \<^item> \<open>AtAppend newJob\<close>: \<open>POST /jobs\<close> after line 138 has returned false and before
    line 142, \<open>*jobs = append(*jobs, newJob)\<close>;
  \<^item> \<open>Replied r\<close>: the handler has returned, with the response \<open>r\<close>.

  An event is the arrival of a request or the next statement of one handler; the
  statements of different handlers interleave in any order.
\<close>

datatype handler =
    AtList
  | AtGet "int option"
  | AtCheck Job
  | AtAppend Job
  | Replied response

record registry =
  r_jobs :: "Job list"
  r_handlers :: "handler list"

datatype revent = Accept request | Advance nat

text \<open>A request arrives and its handler starts. What \<open>POST /jobs\<close> does before line 138
  touches nothing shared: the body is decoded (lines 124-131) and the job is validated by
  \<open>NewJob\<close> (lines 133-137); either can answer 400 at once.\<close>

definition start :: "request \<Rightarrow> handler" where
  "start r =
     (case r of
        ListJobs \<Rightarrow> AtList
      | GetJob idParam \<Rightarrow> AtGet idParam
      | CreateJob body \<Rightarrow>
          (case body of
             None \<Rightarrow> Replied \<lparr>code = 400, payload = InvalidJSON\<rparr>
           | Some jr \<Rightarrow>
               (case NewJob (req_ID jr) (req_Resources jr) (req_Input jr) of
                  Inl err \<Rightarrow> Replied \<lparr>code = 400, payload = ValidationError err\<rparr>
                | Inr newJob \<Rightarrow> AtCheck newJob)))"

text \<open>The next statement of a handler, on the slice as it is at that moment: the handler's
  next program point and the slice it leaves. A handler that has returned has no next
  statement.\<close>

definition next_stmt :: "handler \<Rightarrow> Job list \<Rightarrow> (handler \<times> Job list) option" where
  "next_stmt h jobs =
     (case h of
        AtList \<Rightarrow> Some (Replied (fst (get_jobs jobs)), jobs)
      | AtGet idParam \<Rightarrow> Some (Replied (fst (get_job idParam jobs)), jobs)
      | AtCheck newJob \<Rightarrow>
          (case jobExists newJob jobs of (exists, w) \<Rightarrow>
             if exists then Some (Replied (written w), jobs)
             else Some (AtAppend newJob, jobs))
      | AtAppend newJob \<Rightarrow>
          Some (Replied \<lparr>code = 200, payload = OneJob newJob\<rparr>, jobs @ [newJob])
      | Replied r \<Rightarrow> None)"

definition r_step :: "revent \<Rightarrow> registry \<Rightarrow> registry option" where
  "r_step e s =
     (case e of
        Accept r \<Rightarrow> Some (s\<lparr>r_handlers := r_handlers s @ [start r]\<rparr>)
      | Advance k \<Rightarrow>
          if k < length (r_handlers s)
          then (case next_stmt (r_handlers s ! k) (r_jobs s) of
                  None \<Rightarrow> None
                | Some (h, jobs') \<Rightarrow>
                    Some \<lparr>r_jobs = jobs', r_handlers = (r_handlers s)[k := h]\<rparr>)
          else None)"

fun r_exec :: "revent list \<Rightarrow> registry \<Rightarrow> registry option" where
  "r_exec [] s = Some s"
| "r_exec (e # es) s = (case r_step e s of None \<Rightarrow> None | Some s' \<Rightarrow> r_exec es s')"

text \<open>The server starts with an empty registry (\<open>Jobs: make([]Job, 0)\<close>) and no request.\<close>

definition r_init :: registry where
  "r_init = \<lparr>r_jobs = [], r_handlers = []\<rparr>"

text \<open>The status code a handler has answered with, if it has returned.\<close>

fun reply_code :: "handler \<Rightarrow> nat option" where
  "reply_code (Replied r) = Some (code r)"
| "reply_code AtList = None"
| "reply_code (AtGet idParam) = None"
| "reply_code (AtCheck newJob) = None"
| "reply_code (AtAppend newJob) = None"

text \<open>The invariant of the stored jobs.\<close>

definition job_ok :: "Job \<Rightarrow> bool" where
  "job_ok j \<longleftrightarrow> 0 < ID j \<and> Cpu (Resources j) \<noteq> [] \<and> Memory (Resources j) \<noteq> [] \<and>
               Status j = ''pending'' \<and> Output j \<noteq> None"

definition registry_inv :: "Job list \<Rightarrow> bool" where
  "registry_inv jobs \<longleftrightarrow> (\<forall>j \<in> set jobs. job_ok j) \<and> distinct (map ID jobs)"

text \<open>A handler in progress carries a job only after \<open>NewJob\<close> has validated it.\<close>

fun handler_ok :: "handler \<Rightarrow> bool" where
  "handler_ok (AtCheck newJob) = job_ok newJob"
| "handler_ok (AtAppend newJob) = job_ok newJob"
| "handler_ok AtList = True"
| "handler_ok (AtGet idParam) = True"
| "handler_ok (Replied r) = True"

section \<open>The executor's Run (pkg/workerpool/pool.go, lines 49-142)\<close>

text \<open>
  \<open>Run\<close> starts \<open>NumWorkers\<close> worker goroutines, a feeder goroutine and a goroutine that
  closes \<open>results\<close> once the wait group is released, and then collects in the calling
  goroutine. The goroutines share nothing but the context and the two channels, so \<open>Run\<close>
  is modelled as a transition system: the state holds the program point of every goroutine
  and the contents of the channels, an \<open>event\<close> is one communication or one step of one
  goroutine, and a schedule (a list of events) is one interleaving. A \<open>select\<close> may take
  any of its ready cases, so each ready case is an event of its own.

  The work function is called as \<open>fn(ctx, t.input)\<close>; it is taken to be
  deterministic and to ignore the context, so it is a function \<open>fn\<close> of the input
  alone. An index \<open>idx\<close> is never negative and is a natural number.
\<close>

text \<open>A worker goroutine (lines 67-101) is at the outer \<open>select\<close> (line 71), has pulled
  task \<open>(idx, input)\<close> and is at the inner \<open>select\<close> (line 84), has computed
  \<open>out\<close> and is at the sending \<open>select\<close> (line 94), or has returned (and run
  \<open>wg.Done()\<close>).\<close>

datatype ('a, 'r) worker = AtSelect | Pulled nat 'a | AtSend nat 'r | Gone

text \<open>The feeder goroutine (lines 105-114) is in its loop at index \<open>i\<close> (past the loop
  when \<open>i = len(inputs)\<close>), has run \<open>close(tasks)\<close>, or has returned at index \<open>i\<close>
  through \<open>case <-ctx.Done(): return\<close>.\<close>

datatype feeder = Feeding nat | Closed | Stopped nat

text \<open>\<open>ctx.Err()\<close> of a context that is done.\<close>

datatype error = ContextError

text \<open>The caller's goroutine is in the collecting loop (lines 125-140) or has returned a
  slice (\<open>None\<close> is the nil slice) and an error (\<open>None\<close> is the nil error).\<close>

datatype 'r outcome = Running | Returned "'r list option" "error option"

text \<open>
  \<open>sync.WaitGroup\<close> keeps its counter in the upper 32 bits of a 64-bit word.
  \<open>wg.Add(delta)\<close> adds \<open>uint64(delta) << 32\<close> to the word, reads the counter back as
  \<open>v := int32(state >> 32)\<close> and panics when \<open>v < 0\<close>; \<open>wg.Done()\<close> is
  \<open>wg.Add(-1)\<close>; \<open>wg.Wait()\<close> returns when the counter is 0. \<open>int32 x\<close> is the
  value of the low 32 bits of \<open>x\<close> read as a signed number, and \<open>wg_add v delta\<close> is
  the counter after \<open>Add(delta)\<close> on the counter \<open>v\<close>. The worker count is a Go \<open>int\<close>
  (64 bits); only its low 32 bits reach the counter.
\<close>

definition int32 :: "int \<Rightarrow> int" where
  "int32 x = (x + 2147483648) mod 4294967296 - 2147483648"

definition wg_add :: "int \<Rightarrow> int \<Rightarrow> int" where
  "wg_add v delta = int32 (v + delta)"

record ('a, 'r) pool =
  ctx_done :: bool
  feeder :: feeder
  tasks_closes :: nat
  sent :: "(nat \<times> 'a) list"
  workers :: "('a, 'r) worker list"
  wg :: int
  results :: "(nat \<times> 'r) list"
  results_closed :: bool
  outputs :: "'r list"
  collected :: nat
  outcome :: "'r outcome"
  panicked :: bool

text \<open>
  \<open>ctx_done\<close>: the channel \<open>ctx.Done()\<close> is closed. \<open>tasks_closes\<close> counts the executions
  of \<open>close(tasks)\<close>; the channel \<open>tasks\<close> is unbuffered, so it has no contents, and
  \<open>sent\<close> records the tasks handed over so far, in order. \<open>results\<close> is the buffer of
  the channel \<open>results\<close>, of capacity \<open>len(inputs)\<close>. \<open>wg\<close> is the counter of the wait
  group. \<open>panicked\<close>: a goroutine has panicked, which ends the program.
\<close>

datatype event =
    Cancel
  | Feed nat
  | FeederDone
  | CloseTasks
  | WorkerDone nat
  | WorkerClosed nat
  | Work nat
  | Send nat
  | CloseResults
  | CollectExit
  | CollectDone
  | CollectRecv

text \<open>The context is cancelled, or its deadline passes (once).\<close>

definition cancel :: "('a, 'r) pool \<Rightarrow> ('a, 'r) pool option" where
  "cancel s = (if ctx_done s then None else Some (s\<lparr>ctx_done := True\<rparr>))"

text \<open>Line 110 meets line 77: the feeder, in its loop at index \<open>i\<close>, hands
  \<open>task{idx: i, input: inputs[i]}\<close> to worker \<open>k\<close>, which is at its outer \<open>select\<close>.\<close>

definition feed :: "'a list \<Rightarrow> nat \<Rightarrow> ('a, 'r) pool \<Rightarrow> ('a, 'r) pool option" where
  "feed inputs k s =
     (case feeder s of
        Feeding i \<Rightarrow>
          if i < length inputs \<and> k < length (workers s) \<and> workers s ! k = AtSelect
          then Some (s\<lparr>feeder := Feeding (Suc i),
                       sent := sent s @ [(i, inputs ! i)],
                       workers := (workers s)[k := Pulled i (inputs ! i)]\<rparr>)
          else None
      | _ \<Rightarrow> None)"

text \<open>Lines 108-109: the feeder takes \<open>case <-ctx.Done()\<close> and returns; \<open>tasks\<close> is
  not closed.\<close>

definition feeder_done :: "'a list \<Rightarrow> ('a, 'r) pool \<Rightarrow> ('a, 'r) pool option" where
  "feeder_done inputs s =
     (case feeder s of
        Feeding i \<Rightarrow> if i < length inputs \<and> ctx_done s then Some (s\<lparr>feeder := Stopped i\<rparr>) else None
      | _ \<Rightarrow> None)"

text \<open>Line 113: the loop is over, \<open>close(tasks)\<close>.\<close>

definition close_tasks :: "'a list \<Rightarrow> ('a, 'r) pool \<Rightarrow> ('a, 'r) pool option" where
  "close_tasks inputs s =
     (case feeder s of
        Feeding i \<Rightarrow>
          if length inputs \<le> i
          then Some (s\<lparr>feeder := Closed, tasks_closes := Suc (tasks_closes s)\<rparr>)
          else None
      | _ \<Rightarrow> None)"

text \<open>Lines 73, 85 and 95: worker \<open>k\<close> takes \<open>case <-ctx.Done()\<close> at the \<open>select\<close> it is
  at, and returns. A task it had pulled, or its computed result, is dropped. On the way
  out the deferred \<open>wg.Done()\<close> of line 68 runs; it panics when the counter becomes
  negative.\<close>

definition worker_done :: "nat \<Rightarrow> ('a, 'r) pool \<Rightarrow> ('a, 'r) pool option" where
  "worker_done k s =
     (if k < length (workers s) \<and> workers s ! k \<noteq> Gone \<and> ctx_done s
      then Some (s\<lparr>workers := (workers s)[k := Gone],
                   wg := wg_add (wg s) (- 1),
                   panicked := (wg_add (wg s) (- 1) < 0)\<rparr>)
      else None)"

text \<open>Lines 77-81: worker \<open>k\<close> receives from the closed channel \<open>tasks\<close> and returns,
  running \<open>wg.Done()\<close> in the same way.\<close>

definition worker_closed :: "nat \<Rightarrow> ('a, 'r) pool \<Rightarrow> ('a, 'r) pool option" where
  "worker_closed k s =
     (if k < length (workers s) \<and> workers s ! k = AtSelect \<and> 0 < tasks_closes s
      then Some (s\<lparr>workers := (workers s)[k := Gone],
                   wg := wg_add (wg s) (- 1),
                   panicked := (wg_add (wg s) (- 1) < 0)\<rparr>)
      else None)"

text \<open>Lines 84-91: the context is not done, so the inner \<open>select\<close> of worker \<open>k\<close> takes
  \<open>default\<close>, and the worker computes \<open>out := fn(ctx, t.input)\<close>.\<close>

definition work :: "('a \<Rightarrow> 'r) \<Rightarrow> nat \<Rightarrow> ('a, 'r) pool \<Rightarrow> ('a, 'r) pool option" where
  "work fn k s =
     (if k < length (workers s) \<and> \<not> ctx_done s
      then (case workers s ! k of
              Pulled i x \<Rightarrow> Some (s\<lparr>workers := (workers s)[k := AtSend i (fn x)]\<rparr>)
            | _ \<Rightarrow> None)
      else None)"

text \<open>Line 97: worker \<open>k\<close> sends \<open>result{idx: t.idx, output: out}\<close>. A send on a closed
  channel panics; a send into a full buffer waits (the buffer is never full when a
  worker sends, see \<open>send_has_room\<close> below, so a send that meets the waiting collector
  at a full buffer needs no event of its own).\<close>

definition send :: "'a list \<Rightarrow> nat \<Rightarrow> ('a, 'r) pool \<Rightarrow> ('a, 'r) pool option" where
  "send inputs k s =
     (if k < length (workers s)
      then (case workers s ! k of
              AtSend i y \<Rightarrow>
                if results_closed s then Some (s\<lparr>panicked := True\<rparr>)
                else if length (results s) < length inputs
                then Some (s\<lparr>results := results s @ [(i, y)],
                             workers := (workers s)[k := AtSelect]\<rparr>)
                else None
            | _ \<Rightarrow> None)
      else None)"

text \<open>Lines 116-119: \<open>wg.Wait()\<close> returns when the counter of the wait group is 0; then
  \<open>close(results)\<close>.\<close>

definition close_results :: "('a, 'r) pool \<Rightarrow> ('a, 'r) pool option" where
  "close_results s =
     (if \<not> results_closed s \<and> wg s = 0
      then Some (s\<lparr>results_closed := True\<rparr>)
      else None)"

text \<open>Lines 125 and 141: the loop condition \<open>collected < len(inputs)\<close> is false,
  \<open>return outputs, nil\<close>.\<close>

definition collect_exit :: "'a list \<Rightarrow> ('a, 'r) pool \<Rightarrow> ('a, 'r) pool option" where
  "collect_exit inputs s =
     (if outcome s = Running \<and> \<not> collected s < length inputs
      then Some (s\<lparr>outcome := Returned (Some (outputs s)) None\<rparr>)
      else None)"

text \<open>Lines 127-129: in the loop, the collector takes \<open>case <-ctx.Done()\<close>:
  \<open>return nil, ctx.Err()\<close>.\<close>

definition collect_done :: "'a list \<Rightarrow> ('a, 'r) pool \<Rightarrow> ('a, 'r) pool option" where
  "collect_done inputs s =
     (if outcome s = Running \<and> collected s < length inputs \<and> ctx_done s
      then Some (s\<lparr>outcome := Returned None (Some ContextError)\<rparr>)
      else None)"

text \<open>Lines 131-138: in the loop, the collector receives from \<open>results\<close>: the oldest
  buffered result, stored by \<open>outputs[r.idx] = r.output\<close> (an index outside the slice
  panics); or, from the closed and drained channel, \<open>ok = false\<close> and
  \<open>return outputs, nil\<close>. An open empty channel blocks.\<close>

definition collect_recv :: "'a list \<Rightarrow> ('a, 'r) pool \<Rightarrow> ('a, 'r) pool option" where
  "collect_recv inputs s =
     (if outcome s = Running \<and> collected s < length inputs
      then (case results s of
              (i, y) # rest \<Rightarrow>
                if i < length (outputs s)
                then Some (s\<lparr>results := rest,
                             outputs := (outputs s)[i := y],
                             collected := Suc (collected s)\<rparr>)
                else Some (s\<lparr>panicked := True\<rparr>)
            | [] \<Rightarrow>
                if results_closed s
                then Some (s\<lparr>outcome := Returned (Some (outputs s)) None\<rparr>)
                else None)
      else None)"

text \<open>One event; nothing happens after a panic.\<close>

definition step :: "('a \<Rightarrow> 'r) \<Rightarrow> 'a list \<Rightarrow> event \<Rightarrow> ('a, 'r) pool \<Rightarrow> ('a, 'r) pool option" where
  "step fn inputs e s =
     (if panicked s then None
      else case e of
        Cancel \<Rightarrow> cancel s
      | Feed k \<Rightarrow> feed inputs k s
      | FeederDone \<Rightarrow> feeder_done inputs s
      | CloseTasks \<Rightarrow> close_tasks inputs s
      | WorkerDone k \<Rightarrow> worker_done k s
      | WorkerClosed k \<Rightarrow> worker_closed k s
      | Work k \<Rightarrow> work fn k s
      | Send k \<Rightarrow> send inputs k s
      | CloseResults \<Rightarrow> close_results s
      | CollectExit \<Rightarrow> collect_exit inputs s
      | CollectDone \<Rightarrow> collect_done inputs s
      | CollectRecv \<Rightarrow> collect_recv inputs s)"

fun exec :: "('a \<Rightarrow> 'r) \<Rightarrow> 'a list \<Rightarrow> event list \<Rightarrow> ('a, 'r) pool \<Rightarrow> ('a, 'r) pool option" where
  "exec fn inputs [] s = Some s"
| "exec fn inputs (e # es) s =
     (case step fn inputs e s of None \<Rightarrow> None | Some s' \<Rightarrow> exec fn inputs es s')"

text \<open>
  The state in which \<open>Run\<close> starts (lines 60-66, 121-122). \<open>wg.Add(w.NumWorkers)\<close> runs
  first, on the counter 0, and panics when the counter it leaves is negative; nothing is
  started then. Otherwise the loop \<open>for i := 0; i < w.NumWorkers; i++\<close> starts
  \<open>NumWorkers\<close> workers (none for a negative count), each at its \<open>select\<close>, the feeder
  is at index 0, and \<open>outputs := make([]R, len(inputs))\<close> holds the zero value of \<open>R\<close>
  in every slot. \<open>done0\<close>: the context is already done when \<open>Run\<close> is called.
\<close>

definition Run_init :: "int \<Rightarrow> 'r \<Rightarrow> bool \<Rightarrow> 'a list \<Rightarrow> ('a, 'r) pool" where
  "Run_init numWorkers zero done0 inputs =
     \<lparr>ctx_done = done0, feeder = Feeding 0, tasks_closes = 0, sent = [],
      workers = (if wg_add 0 numWorkers < 0 then [] else replicate (nat numWorkers) AtSelect),
      wg = wg_add 0 numWorkers,
      results = [], results_closed = False,
      outputs = replicate (length inputs) zero, collected = 0,
      outcome = Running, panicked = (wg_add 0 numWorkers < 0)\<rparr>"

text \<open>\<open>Run numWorkers zero done0 inputs fn schedule\<close> is the state \<open>Run\<close> is in after the
  events of \<open>schedule\<close>, or \<open>None\<close> when the schedule is not an execution (some event
  of it is not ready when its turn comes). \<open>outcome\<close> of that state is what \<open>Run\<close> has
  returned.\<close>

definition Run :: "int \<Rightarrow> 'r \<Rightarrow> bool \<Rightarrow> 'a list \<Rightarrow> ('a \<Rightarrow> 'r) \<Rightarrow> event list \<Rightarrow> ('a, 'r) pool option" where
  "Run numWorkers zero done0 inputs fn schedule =
     exec fn inputs schedule (Run_init numWorkers zero done0 inputs)"

text \<open>The work function of the scenario \<open>inputs = [1,2,3,4]\<close>, \<open>fn(x) = x*x\<close>.\<close>

definition square :: "int \<Rightarrow> int" where
  "square x = x * x"

text \<open>The number of events a state can still take part in: every event lowers it.\<close>

fun worker_cost :: "('a, 'r) worker \<Rightarrow> nat" where
  "worker_cost AtSelect = 1"
| "worker_cost (Pulled i x) = 4"
| "worker_cost (AtSend i y) = 3"
| "worker_cost Gone = 0"

fun feeder_cost :: "nat \<Rightarrow> feeder \<Rightarrow> nat" where
  "feeder_cost n (Feeding i) = 4 * (n - i) + 1"
| "feeder_cost n Closed = 0"
| "feeder_cost n (Stopped i) = 0"

definition todo :: "'a list \<Rightarrow> ('a, 'r) pool \<Rightarrow> nat" where
  "todo inputs s =
     feeder_cost (length inputs) (feeder s) + sum_list (map worker_cost (workers s)) +
     length (results s) + (if results_closed s then 0 else 1) +
     (if outcome s = Running then 1 else 0) + (if ctx_done s then 0 else 1) +
     (if panicked s then 0 else 1)"

text \<open>The tasks a worker holds, the number of the feeder's hand-overs, and the tasks on
  their way: pulled, computed or buffered.\<close>

fun holds :: "('a, 'r) worker \<Rightarrow> nat option" where
  "holds AtSelect = None"
| "holds (Pulled i x) = Some i"
| "holds (AtSend i y) = Some i"
| "holds Gone = None"

fun load :: "('a, 'r) worker \<Rightarrow> nat" where
  "load AtSelect = 0"
| "load (Pulled i x) = 1"
| "load (AtSend i y) = 1"
| "load Gone = 0"

fun fed :: "nat \<Rightarrow> feeder \<Rightarrow> nat" where
  "fed n (Feeding i) = i"
| "fed n Closed = n"
| "fed n (Stopped i) = i"

definition pending :: "('a, 'r) pool \<Rightarrow> nat set" where
  "pending s = {i. \<exists>w \<in> set (workers s). holds w = Some i} \<union> fst ` set (results s)"

fun worker_ok :: "('a \<Rightarrow> 'r) \<Rightarrow> 'a list \<Rightarrow> ('a, 'r) worker \<Rightarrow> bool" where
  "worker_ok fn inputs AtSelect = True"
| "worker_ok fn inputs (Pulled i x) = (i < length inputs \<and> x = inputs ! i)"
| "worker_ok fn inputs (AtSend i y) = (i < length inputs \<and> y = fn (inputs ! i))"
| "worker_ok fn inputs Gone = True"

text \<open>What holds in every state of every execution, cancelled or not and whatever the
  worker count: the feeder has handed over a prefix of the indexed inputs and closed
  \<open>tasks\<close> only after the loop; every task and result on its way is right; \<open>outputs\<close>
  has the length of the inputs and every slot is the zero value or the result for its
  input; and a returned value is \<open>nil\<close> with the context error, or the slice
  \<open>outputs\<close> with a nil error.\<close>

definition feeder_inv :: "'a list \<Rightarrow> ('a, 'r) pool \<Rightarrow> bool" where
  "feeder_inv inputs s \<longleftrightarrow>
     fed (length inputs) (feeder s) \<le> length inputs \<and>
     sent s = take (fed (length inputs) (feeder s)) (zip [0..<length inputs] inputs) \<and>
     tasks_closes s = (if feeder s = Closed then 1 else 0) \<and>
     (\<forall>i. feeder s = Stopped i \<longrightarrow> ctx_done s \<and> i < length inputs)"

definition items_inv :: "('a \<Rightarrow> 'r) \<Rightarrow> 'a list \<Rightarrow> ('a, 'r) pool \<Rightarrow> bool" where
  "items_inv fn inputs s \<longleftrightarrow>
     (\<forall>w \<in> set (workers s). worker_ok fn inputs w) \<and>
     (\<forall>r \<in> set (results s). fst r < length inputs \<and> snd r = fn (inputs ! fst r))"

definition outputs_inv :: "('a \<Rightarrow> 'r) \<Rightarrow> 'r \<Rightarrow> 'a list \<Rightarrow> ('a, 'r) pool \<Rightarrow> bool" where
  "outputs_inv fn zero inputs s \<longleftrightarrow>
     length (outputs s) = length inputs \<and>
     (\<forall>i < length inputs. outputs s ! i = zero \<or> outputs s ! i = fn (inputs ! i))"

definition outcome_inv :: "'a list \<Rightarrow> ('a, 'r) pool \<Rightarrow> bool" where
  "outcome_inv inputs s \<longleftrightarrow>
     (\<forall>e. outcome s = Returned None e \<longrightarrow>
        e = Some ContextError \<and> ctx_done s \<and> collected s < length inputs) \<and>
     (\<forall>xs e. outcome s = Returned (Some xs) e \<longrightarrow> e = None \<and> xs = outputs s)"

definition safe :: "('a \<Rightarrow> 'r) \<Rightarrow> 'r \<Rightarrow> 'a list \<Rightarrow> ('a, 'r) pool \<Rightarrow> bool" where
  "safe fn zero inputs s \<longleftrightarrow>
     feeder_inv inputs s \<and> items_inv fn inputs s \<and>
     outputs_inv fn zero inputs s \<and> outcome_inv inputs s"

text \<open>What holds in addition when the worker count is in the range of the wait group's
  counter, from 0 to \<open>2^31 - 1\<close>: the counter is the number of workers that have not
  returned, nothing has panicked, and \<open>results\<close> is closed only after all workers have
  returned.\<close>

fun alive :: "('a, 'r) worker \<Rightarrow> nat" where
  "alive AtSelect = 1"
| "alive (Pulled i x) = 1"
| "alive (AtSend i y) = 1"
| "alive Gone = 0"

definition wg_inv :: "('a, 'r) pool \<Rightarrow> bool" where
  "wg_inv s \<longleftrightarrow> wg s = int (sum_list (map alive (workers s))) \<and> wg s < 2147483648"

definition closing_inv :: "('a, 'r) pool \<Rightarrow> bool" where
  "closing_inv s \<longleftrightarrow> (results_closed s \<longrightarrow> (\<forall>w \<in> set (workers s). w = Gone))"

definition sound :: "('a \<Rightarrow> 'r) \<Rightarrow> 'r \<Rightarrow> 'a list \<Rightarrow> ('a, 'r) pool \<Rightarrow> bool" where
  "sound fn zero inputs s \<longleftrightarrow>
     \<not> panicked s \<and> feeder_inv inputs s \<and> items_inv fn inputs s \<and>
     outputs_inv fn zero inputs s \<and> closing_inv s \<and> outcome_inv inputs s \<and> wg_inv s"

text \<open>What holds in addition to that while the context is not done and there is a worker: no
  task is lost, and a slot of \<open>outputs\<close> whose task is no longer on its way is filled.\<close>

definition steady :: "('a \<Rightarrow> 'r) \<Rightarrow> 'a list \<Rightarrow> ('a, 'r) pool \<Rightarrow> bool" where
  "steady fn inputs s \<longleftrightarrow>
     \<not> ctx_done s \<and>
     workers s \<noteq> [] \<and>
     collected s + length (results s) + sum_list (map load (workers s))
       = fed (length inputs) (feeder s) \<and>
     (\<forall>j < fed (length inputs) (feeder s).
        j \<in> pending s \<or> outputs s ! j = fn (inputs ! j)) \<and>
     (Gone \<in> set (workers s) \<longrightarrow> feeder s = Closed) \<and>
     (outcome s \<noteq> Running \<longrightarrow> length inputs \<le> collected s)"

text \<open>The results collected, buffered, and held by the workers are never more than the
  tasks handed over.\<close>

definition room :: "'a list \<Rightarrow> ('a, 'r) pool \<Rightarrow> bool" where
  "room inputs s \<longleftrightarrow>
     collected s + length (results s) + sum_list (map load (workers s))
       \<le> fed (length inputs) (feeder s)"

section \<open>The draft Run without a context (src/unnamed/part_001, lines 144-191)\<close>

text \<open>
  The draft executor is made by \<open>New(numWorkers)\<close> and its \<open>Run(inputs, fn)\<close> has no
  context. Both channels are unbuffered. A worker ranges over \<open>tasks\<close> and sends each
  result; the feeder sends every input and closes \<open>tasks\<close>; \<open>results\<close> is closed when
  all workers have returned; the caller ranges over \<open>results\<close> and appends
  \<open>r.output\<close> to \<open>outputs\<close> in the order of arrival, and returns \<open>outputs\<close> when the
  channel is closed. The model is a transition system like that of \<open>Run\<close>, over the
  same worker and feeder program points (the feeder never stops early here), and with the
  same counter \<open>d_wg\<close> of the wait group.

  \<open>d_returned\<close> is \<open>None\<close> while the caller is in its loop and \<open>Some outputs\<close> once it
  has returned; a slice is modelled by the list of its elements, so the nil slice that
  \<open>var outputs []R\<close> leaves when nothing is appended is \<open>[]\<close>.
\<close>

record ('a, 'r) draft =
  d_feeder :: feeder
  d_workers :: "('a, 'r) worker list"
  d_wg :: int
  d_results_closed :: bool
  d_outputs :: "'r list"
  d_returned :: "'r list option"
  d_panicked :: bool

datatype devent =
    DFeed nat
  | DCloseTasks
  | DWorkerClosed nat
  | DWork nat
  | DDeliver nat
  | DCloseResults
  | DReturn

text \<open>Line 175 meets line 164: the feeder hands \<open>task{idx: i, input: inputs[i]}\<close> to
  worker \<open>k\<close>, which is waiting in \<open>for t := range tasks\<close>.\<close>

definition d_feed :: "'a list \<Rightarrow> nat \<Rightarrow> ('a, 'r) draft \<Rightarrow> ('a, 'r) draft option" where
  "d_feed inputs k s =
     (case d_feeder s of
        Feeding i \<Rightarrow>
          if i < length inputs \<and> k < length (d_workers s) \<and> d_workers s ! k = AtSelect
          then Some (s\<lparr>d_feeder := Feeding (Suc i),
                       d_workers := (d_workers s)[k := Pulled i (inputs ! i)]\<rparr>)
          else None
      | _ \<Rightarrow> None)"

text \<open>Line 177: the loop is over, \<open>close(tasks)\<close>.\<close>

definition d_close_tasks :: "'a list \<Rightarrow> ('a, 'r) draft \<Rightarrow> ('a, 'r) draft option" where
  "d_close_tasks inputs s =
     (case d_feeder s of
        Feeding i \<Rightarrow> if length inputs \<le> i then Some (s\<lparr>d_feeder := Closed\<rparr>) else None
      | _ \<Rightarrow> None)"

text \<open>Line 164: \<open>tasks\<close> is closed, the \<open>range\<close> loop of worker \<open>k\<close> ends and the
  worker returns; the deferred \<open>wg.Done()\<close> of line 163 runs, and panics when the
  counter becomes negative.\<close>

definition d_worker_closed :: "nat \<Rightarrow> ('a, 'r) draft \<Rightarrow> ('a, 'r) draft option" where
  "d_worker_closed k s =
     (if k < length (d_workers s) \<and> d_workers s ! k = AtSelect \<and> d_feeder s = Closed
      then Some (s\<lparr>d_workers := (d_workers s)[k := Gone],
                   d_wg := wg_add (d_wg s) (- 1),
                   d_panicked := (wg_add (d_wg s) (- 1) < 0)\<rparr>)
      else None)"

text \<open>Line 166: \<open>out := fn(t.input)\<close>.\<close>

definition d_work :: "('a \<Rightarrow> 'r) \<Rightarrow> nat \<Rightarrow> ('a, 'r) draft \<Rightarrow> ('a, 'r) draft option" where
  "d_work fn k s =
     (if k < length (d_workers s)
      then (case d_workers s ! k of
              Pulled i x \<Rightarrow> Some (s\<lparr>d_workers := (d_workers s)[k := AtSend i (fn x)]\<rparr>)
            | _ \<Rightarrow> None)
      else None)"

text \<open>Line 167 meets lines 187-188: worker \<open>k\<close> sends its result and the caller, in its
  \<open>range\<close> loop, receives it and appends the output. A send on a closed channel panics;
  once the caller has returned nobody receives, and the send blocks.\<close>

definition d_deliver :: "nat \<Rightarrow> ('a, 'r) draft \<Rightarrow> ('a, 'r) draft option" where
  "d_deliver k s =
     (if k < length (d_workers s)
      then (case d_workers s ! k of
              AtSend i y \<Rightarrow>
                if d_results_closed s then Some (s\<lparr>d_panicked := True\<rparr>)
                else if d_returned s = None
                then Some (s\<lparr>d_outputs := d_outputs s @ [y],
                             d_workers := (d_workers s)[k := AtSelect]\<rparr>)
                else None
            | _ \<Rightarrow> None)
      else None)"

text \<open>Lines 180-183: \<open>wg.Wait()\<close> returns when the counter of the wait group is 0; then
  \<open>close(results)\<close>.\<close>

definition d_close_results :: "('a, 'r) draft \<Rightarrow> ('a, 'r) draft option" where
  "d_close_results s =
     (if \<not> d_results_closed s \<and> d_wg s = 0
      then Some (s\<lparr>d_results_closed := True\<rparr>)
      else None)"

text \<open>Lines 187-190: \<open>results\<close> is closed, the caller's loop ends, \<open>return outputs\<close>.\<close>

definition d_return :: "('a, 'r) draft \<Rightarrow> ('a, 'r) draft option" where
  "d_return s =
     (if d_returned s = None \<and> d_results_closed s
      then Some (s\<lparr>d_returned := Some (d_outputs s)\<rparr>)
      else None)"

definition d_step :: "('a \<Rightarrow> 'r) \<Rightarrow> 'a list \<Rightarrow> devent \<Rightarrow> ('a, 'r) draft \<Rightarrow> ('a, 'r) draft option" where
  "d_step fn inputs e s =
     (if d_panicked s then None
      else case e of
        DFeed k \<Rightarrow> d_feed inputs k s
      | DCloseTasks \<Rightarrow> d_close_tasks inputs s
      | DWorkerClosed k \<Rightarrow> d_worker_closed k s
      | DWork k \<Rightarrow> d_work fn k s
      | DDeliver k \<Rightarrow> d_deliver k s
      | DCloseResults \<Rightarrow> d_close_results s
      | DReturn \<Rightarrow> d_return s)"

fun d_exec :: "('a \<Rightarrow> 'r) \<Rightarrow> 'a list \<Rightarrow> devent list \<Rightarrow> ('a, 'r) draft \<Rightarrow> ('a, 'r) draft option" where
  "d_exec fn inputs [] s = Some s"
| "d_exec fn inputs (e # es) s =
     (case d_step fn inputs e s of None \<Rightarrow> None | Some s' \<Rightarrow> d_exec fn inputs es s')"

text \<open>Lines 155-161 and 186: \<open>wg.Add(w.NumWorkers)\<close> sets the 32-bit counter of the wait
  group and panics when it reads as a negative number, before any goroutine is started;
  otherwise \<open>for range w.NumWorkers\<close> starts the workers (none for a count below 1),
  which wait for tasks, and \<open>outputs\<close> is nil.\<close>

definition Run_draft_init :: "int \<Rightarrow> ('a, 'r) draft" where
  "Run_draft_init numWorkers =
     \<lparr>d_feeder = Feeding 0,
      d_workers = (if wg_add 0 numWorkers < 0 then [] else replicate (nat numWorkers) AtSelect),
      d_wg = wg_add 0 numWorkers,
      d_results_closed = False, d_outputs = [], d_returned = None,
      d_panicked = (wg_add 0 numWorkers < 0)\<rparr>"

definition Run_draft :: "int \<Rightarrow> 'a list \<Rightarrow> ('a \<Rightarrow> 'r) \<Rightarrow> devent list \<Rightarrow> ('a, 'r) draft option" where
  "Run_draft numWorkers inputs fn schedule = d_exec fn inputs schedule (Run_draft_init numWorkers)"

text \<open>The number of events a state of the draft can still take part in.\<close>

fun d_worker_cost :: "('a, 'r) worker \<Rightarrow> nat" where
  "d_worker_cost AtSelect = 1"
| "d_worker_cost (Pulled i x) = 3"
| "d_worker_cost (AtSend i y) = 2"
| "d_worker_cost Gone = 0"

fun d_feeder_cost :: "nat \<Rightarrow> feeder \<Rightarrow> nat" where
  "d_feeder_cost n (Feeding i) = 3 * (n - i) + 1"
| "d_feeder_cost n Closed = 0"
| "d_feeder_cost n (Stopped i) = 0"

definition d_todo :: "'a list \<Rightarrow> ('a, 'r) draft \<Rightarrow> nat" where
  "d_todo inputs s =
     d_feeder_cost (length inputs) (d_feeder s) + sum_list (map d_worker_cost (d_workers s)) +
     (if d_results_closed s then 0 else 1) + (if d_returned s = None then 1 else 0) +
     (if d_panicked s then 0 else 1)"

text \<open>The output a worker is about to deliver.\<close>

fun owed :: "('a \<Rightarrow> 'r) \<Rightarrow> ('a, 'r) worker \<Rightarrow> 'r list" where
  "owed fn AtSelect = []"
| "owed fn (Pulled i x) = [fn x]"
| "owed fn (AtSend i y) = [y]"
| "owed fn Gone = []"

text \<open>What holds in every state of every execution of the draft whose worker count is in
  the range of the wait group's counter, from 0 to \<open>2^31 - 1\<close>: the counter is the number
  of workers that have not returned, nothing has panicked, \<open>results\<close> is closed only
  after all workers have returned, and the caller returns only then. With at least one
  worker, in addition: the outputs appended so far, together with the outputs the workers
  are about to deliver, are the results of the inputs fed so far, as a multiset, and with
  a single worker also in order.\<close>

definition d_wg_inv :: "('a, 'r) draft \<Rightarrow> bool" where
  "d_wg_inv s \<longleftrightarrow>
     d_wg s = int (sum_list (map alive (d_workers s))) \<and> d_wg s < 2147483648"

definition d_sound :: "('a \<Rightarrow> 'r) \<Rightarrow> 'a list \<Rightarrow> ('a, 'r) draft \<Rightarrow> bool" where
  "d_sound fn inputs s \<longleftrightarrow>
     \<not> d_panicked s \<and>
     (\<forall>i. d_feeder s \<noteq> Stopped i) \<and>
     fed (length inputs) (d_feeder s) \<le> length inputs \<and>
     (\<forall>w \<in> set (d_workers s). worker_ok fn inputs w) \<and>
     (d_results_closed s \<longrightarrow> (\<forall>w \<in> set (d_workers s). w = Gone)) \<and>
     (\<forall>out. d_returned s = Some out \<longrightarrow> out = d_outputs s \<and> d_results_closed s) \<and>
     d_wg_inv s"

definition d_steady :: "('a \<Rightarrow> 'r) \<Rightarrow> 'a list \<Rightarrow> ('a, 'r) draft \<Rightarrow> bool" where
  "d_steady fn inputs s \<longleftrightarrow>
     d_workers s \<noteq> [] \<and>
     mset (d_outputs s) + sum_list (map (\<lambda>w. mset (owed fn w)) (d_workers s))
       = mset (map fn (take (fed (length inputs) (d_feeder s)) inputs)) \<and>
     (length (d_workers s) = 1 \<longrightarrow>
        d_outputs s @ concat (map (owed fn) (d_workers s))
          = map fn (take (fed (length inputs) (d_feeder s)) inputs)) \<and>
     (Gone \<in> set (d_workers s) \<longrightarrow> d_feeder s = Closed)"

section \<open>The collecting end of the context-aware draft (src/unnamed/part_001, lines 104-120)\<close>

text \<open>
  The first draft in \<open>part_001\<close> has the workers, the feeder and the closing goroutine of
  \<open>pool.go\<close>, but its caller collects differently: it ranges over \<open>results\<close> until the
  channel is closed and only then looks at the context and at the number received.
  \<^verbatim>\<open>
  outputs := make([]R, len(inputs))
  received := 0
  for r := range results { outputs[r.idx] = r.output; received++ }
  if err := ctx.Err(); err != nil {
      return outputs, fmt.Errorf("worker pool exited early: %w", err)
  }
  if received < len(inputs) {
      return outputs, fmt.Errorf("worker pool did not return all results: got %d of %d", ...)
  }
  return outputs, nil
  \<close>
  \<open>draft_collect\<close> is the loop over the results that arrive before the channel is closed;
  \<open>draft_finish\<close> is the rest, given \<open>ctx.Err()\<close>.
\<close>

datatype draft_error = ExitedEarly error | DidNotReturnAll nat nat

fun draft_collect :: "(nat \<times> 'r) list \<Rightarrow> 'r list \<Rightarrow> nat \<Rightarrow> panic + 'r list \<times> nat" where
  "draft_collect [] outs received = Inr (outs, received)"
| "draft_collect ((i, y) # rs) outs received =
     (if i < length outs then draft_collect rs (outs[i := y]) (Suc received)
      else Inl IndexOutOfRange)"

definition draft_finish :: "nat \<Rightarrow> error option \<Rightarrow> 'r list \<times> nat \<Rightarrow> 'r list \<times> draft_error option" where
  "draft_finish n ctx_err collected_so_far =
     (case collected_so_far of (outs, received) \<Rightarrow>
        (case ctx_err of
           Some err \<Rightarrow> (outs, Some (ExitedEarly err))
         | None \<Rightarrow>
             if received < n then (outs, Some (DidNotReturnAll received n))
             else (outs, None)))"

section \<open>Properties of the work splitting\<close>

lemma sdiv_nonneg_eq: "0 \<le> a \<Longrightarrow> 0 < b \<Longrightarrow> (a::int) sdiv b = a div b"
  by (simp add: signed_divide_int_def sgn_if)

lemma smod_nonneg_eq: "0 \<le> a \<Longrightarrow> 0 < b \<Longrightarrow> (a::int) smod b = a mod b"
  by (simp add: signed_modulo_int_def sgn_if)

lemma splitter_loop_nth:
  assumes "0 \<le> j" "length tasks = nat n"
  shows "\<exists>ts. splitter_loop base rem n j tasks = Inr ts \<and> length ts = nat n \<and>
           (\<forall>i < nat n. ts ! i =
               (if nat j \<le> i then \<lparr>Count = base + (if int i < rem then 1 else 0)\<rparr> else tasks ! i))"
  using assms
proof (induction base rem n j tasks rule: splitter_loop.induct)
  case (1 base rem nWorkers j tasks)
  show ?case
  proof (cases "j < nWorkers")
    case False
    then have "splitter_loop base rem nWorkers j tasks = Inr tasks"
      by (subst splitter_loop.simps) simp
    with False "1.prems" show ?thesis by auto
  next
    case True
    let ?t = "tasks[nat j := \<lparr>Count = base + (if j < rem then 1 else 0)\<rparr>]"
    from True "1.prems" have inr: "0 \<le> j \<and> nat j < length tasks" by auto
    have "\<exists>ts. splitter_loop base rem nWorkers (j + 1) ?t = Inr ts \<and> length ts = nat nWorkers \<and>
           (\<forall>i < nat nWorkers. ts ! i =
               (if nat (j + 1) \<le> i then \<lparr>Count = base + (if int i < rem then 1 else 0)\<rparr> else ?t ! i))"
      using "1.IH"[OF True refl inr] "1.prems" by simp
    then obtain ts where ts: "splitter_loop base rem nWorkers (j + 1) ?t = Inr ts"
      "length ts = nat nWorkers"
      "\<forall>i < nat nWorkers. ts ! i =
               (if nat (j + 1) \<le> i then \<lparr>Count = base + (if int i < rem then 1 else 0)\<rparr> else ?t ! i)"
      by blast
    have eq: "splitter_loop base rem nWorkers j tasks = Inr ts"
      using True inr ts(1) by (subst splitter_loop.simps) (simp add: Let_def)
    have "\<forall>i < nat nWorkers. ts ! i =
               (if nat j \<le> i then \<lparr>Count = base + (if int i < rem then 1 else 0)\<rparr> else tasks ! i)"
    proof (intro allI impI)
      fix i assume i: "i < nat nWorkers"
      show "ts ! i = (if nat j \<le> i then \<lparr>Count = base + (if int i < rem then 1 else 0)\<rparr> else tasks ! i)"
      proof (cases "i = nat j")
        case True
        then have "int i = j" using inr by simp
        with True ts(3) i inr show ?thesis by (simp add: nat_add_distrib)
      next
        case False
        with ts(3) i inr show ?thesis by (auto simp: nat_add_distrib)
      qed
    qed
    with eq ts(2) show ?thesis by blast
  qed
qed

lemma main_split_loop_nth:
  assumes "i0 \<le> length tasks"
  shows "\<exists>ts acc'. main_split_loop chunk remainder i0 tasks acc = (ts, acc') \<and>
           length ts = length tasks \<and>
           (\<forall>i < length tasks. ts ! i =
               (if i0 \<le> i then \<lparr>Count = chunk + (if int i < remainder then 1 else 0)\<rparr> else tasks ! i)) \<and>
           acc' = acc + (\<Sum>i = i0..<length tasks. chunk + (if int i < remainder then 1 else 0))"
  using assms
proof (induction chunk remainder i0 tasks acc rule: main_split_loop.induct)
  case (1 chunk remainder i tasks totalAllocated)
  show ?case
  proof (cases "i < length tasks")
    case False
    then have "main_split_loop chunk remainder i tasks totalAllocated = (tasks, totalAllocated)"
      by (subst main_split_loop.simps) simp
    with False "1.prems" show ?thesis by auto
  next
    case True
    let ?v = "\<lparr>Count = chunk + (if int i < remainder then 1 else 0)\<rparr>"
    let ?t = "tasks[i := ?v]"
    let ?a = "totalAllocated + Count (?t ! i)"
    have "\<exists>ts acc'. main_split_loop chunk remainder (Suc i) ?t ?a = (ts, acc') \<and>
           length ts = length ?t \<and>
           (\<forall>k < length ?t. ts ! k =
               (if Suc i \<le> k then \<lparr>Count = chunk + (if int k < remainder then 1 else 0)\<rparr> else ?t ! k)) \<and>
           acc' = ?a + (\<Sum>k = Suc i..<length ?t. chunk + (if int k < remainder then 1 else 0))"
      using "1.IH"[OF True refl refl] True by simp
    then obtain ts acc' where ts: "main_split_loop chunk remainder (Suc i) ?t ?a = (ts, acc')"
      "length ts = length tasks"
      "\<forall>k < length tasks. ts ! k =
               (if Suc i \<le> k then \<lparr>Count = chunk + (if int k < remainder then 1 else 0)\<rparr> else ?t ! k)"
      "acc' = ?a + (\<Sum>k = Suc i..<length tasks. chunk + (if int k < remainder then 1 else 0))"
      by auto
    have eq: "main_split_loop chunk remainder i tasks totalAllocated = (ts, acc')"
      using True ts(1) by (subst main_split_loop.simps) (simp add: Let_def)
    have nth: "\<forall>k < length tasks. ts ! k =
               (if i \<le> k then \<lparr>Count = chunk + (if int k < remainder then 1 else 0)\<rparr> else tasks ! k)"
    proof (intro allI impI)
      fix k assume k: "k < length tasks"
      show "ts ! k = (if i \<le> k then \<lparr>Count = chunk + (if int k < remainder then 1 else 0)\<rparr> else tasks ! k)"
        using ts(3) k True by (cases "k = i") auto
    qed
    have "acc' = totalAllocated + (\<Sum>k = i..<length tasks. chunk + (if int k < remainder then 1 else 0))"
      using ts(4) True by (simp add: sum.atLeast_Suc_lessThan)
    with eq ts(2) nth show ?thesis by blast
  qed
qed

lemma sum_share:
  assumes "0 \<le> tot" "0 < n"
  shows "(\<Sum>i = 0..<nat n. share tot n i) = tot"
proof -
  let ?r = "nat (tot mod n)"
  have r: "?r \<le> nat n" using assms by (simp add: nat_le_eq_zle less_imp_le)
  have inter: "{0..<nat n} \<inter> {i. int i < tot mod n} = {0..<?r}"
    using r assms by auto
  have ind: "(\<Sum>i = 0..<nat n. (if int i < tot mod n then (1::int) else 0)) = int ?r"
    by (simp add: sum.If_cases inter)
  have "(\<Sum>i = 0..<nat n. share tot n i)
        = (\<Sum>i = 0..<nat n. tot div n) + (\<Sum>i = 0..<nat n. (if int i < tot mod n then (1::int) else 0))"
    by (simp add: share_def sum.distrib)
  also have "\<dots> = n * (tot div n) + tot mod n"
    using ind assms by simp
  finally show ?thesis by simp
qed

lemma share_nonneg: "0 \<le> tot \<Longrightarrow> 0 < n \<Longrightarrow> 0 \<le> share tot n j"
  by (simp add: share_def pos_imp_zdiv_nonneg_iff)

lemma share_close: "\<bar>share tot n i - share tot n j\<bar> \<le> 1"
  by (simp add: share_def)

lemma split_common:
  assumes "0 \<le> tot" "1 \<le> n"
  shows "\<exists>ts. splitter tot n = Inr ts \<and> main_split tot n = Inr (ts, tot) \<and>
              length ts = nat n \<and> (\<forall>j < nat n. ts ! j = \<lparr>Count = share tot n j\<rparr>)"
proof -
  from assms have n: "0 < n" "n \<noteq> 0" "\<not> n < 0" by auto
  let ?z = "replicate (nat n) \<lparr>Count = 0\<rparr>"
  obtain ts where ts: "splitter_loop (tot div n) (tot mod n) n 0 ?z = Inr ts" "length ts = nat n"
    "\<forall>i < nat n. ts ! i = \<lparr>Count = share tot n i\<rparr>"
    using splitter_loop_nth[of 0 ?z n "tot div n" "tot mod n"] by (auto simp: share_def)
  obtain ts' acc' where ts': "main_split_loop (tot div n) (tot mod n) 0 ?z 0 = (ts', acc')"
    "length ts' = nat n" "\<forall>i < nat n. ts' ! i = \<lparr>Count = share tot n i\<rparr>"
    "acc' = (\<Sum>i = 0..<nat n. share tot n i)"
    using main_split_loop_nth[of 0 ?z "tot div n" "tot mod n" 0] by (auto simp: share_def)
  have "ts' = ts" using ts ts' by (intro nth_equalityI) auto
  moreover have "acc' = tot" using ts'(4) sum_share[OF assms(1) n(1)] by simp
  ultimately have m: "main_split tot n = Inr (ts, tot)"
    using ts'(1) n assms by (simp add: main_split_def sdiv_nonneg_eq smod_nonneg_eq)
  have s: "splitter tot n = Inr ts"
    using ts(1) n assms by (simp add: splitter_def sdiv_nonneg_eq smod_nonneg_eq)
  from s m ts(2,3) show ?thesis by blast
qed

text \<open>
  Claim C9. For every requested total \<open>tot \<ge> 0\<close> and worker count \<open>n \<ge> 1\<close>, the
  compute-server splitter and the split in the CLI \<open>main\<close> return without a panic and
  produce the same slice of exactly \<open>n\<close> tasks; every \<open>Count\<close> is non-negative, the
  counts sum to \<open>tot\<close> (which is also the \<open>totalAllocated\<close> of \<open>main\<close>), any two counts
  differ by at most one, and task \<open>j\<close> gets \<open>tot div n\<close> plus one extra unit exactly when
  \<open>j < tot mod n\<close>.
\<close>

theorem work_split_fair:
  assumes "0 \<le> tot" "1 \<le> n"
  shows "\<exists>ts. splitter tot n = Inr ts \<and> main_split tot n = Inr (ts, tot) \<and>
           length ts = nat n \<and>
           (\<forall>t \<in> set ts. 0 \<le> Count t) \<and>
           sum_list (map Count ts) = tot \<and>
           (\<forall>a \<in> set ts. \<forall>b \<in> set ts. \<bar>Count a - Count b\<bar> \<le> 1) \<and>
           (\<forall>j < nat n. Count (ts ! j) = tot div n + (if int j < tot mod n then 1 else 0))"
proof -
  from assms have n: "0 < n" by simp
  obtain ts where ts: "splitter tot n = Inr ts" "main_split tot n = Inr (ts, tot)"
    "length ts = nat n" "\<forall>j < nat n. ts ! j = \<lparr>Count = share tot n j\<rparr>"
    using split_common[OF assms] by blast
  have cnt: "Count (ts ! j) = share tot n j" if "j < nat n" for j
    using ts(4) that by simp
  have nonneg: "\<forall>t \<in> set ts. 0 \<le> Count t"
    using cnt ts(3) share_nonneg[OF assms(1) n] by (auto simp: in_set_conv_nth)
  have close: "\<forall>a \<in> set ts. \<forall>b \<in> set ts. \<bar>Count a - Count b\<bar> \<le> 1"
  proof (intro ballI)
    fix a b assume "a \<in> set ts" "b \<in> set ts"
    then obtain i j where "i < nat n" "a = ts ! i" "j < nat n" "b = ts ! j"
      using ts(3) by (auto simp: in_set_conv_nth)
    then show "\<bar>Count a - Count b\<bar> \<le> 1"
      using cnt share_close[of tot n i j] by simp
  qed
  have "sum_list (map Count ts) = (\<Sum>i = 0..<nat n. Count (ts ! i))"
    using ts(3) by (simp add: sum_list_sum_nth)
  also have "\<dots> = (\<Sum>i = 0..<nat n. share tot n i)"
    using cnt by simp
  finally have total: "sum_list (map Count ts) = tot"
    using sum_share[OF assms(1) n] by simp
  have "\<forall>j < nat n. Count (ts ! j) = tot div n + (if int j < tot mod n then 1 else 0)"
    using cnt by (simp add: share_def)
  with ts(1,2,3) nonneg total close show ?thesis by blast
qed

text \<open>The theorem at \<open>tot = 10\<close>, \<open>n = 3\<close> (the tasks are 4, 3, 3).\<close>

theorem work_split_fair_witness:
  "\<exists>ts. splitter 10 3 = Inr ts \<and> main_split 10 3 = Inr (ts, 10) \<and>
           length ts = nat 3 \<and>
           (\<forall>t \<in> set ts. 0 \<le> Count t) \<and>
           sum_list (map Count ts) = 10 \<and>
           (\<forall>a \<in> set ts. \<forall>b \<in> set ts. \<bar>Count a - Count b\<bar> \<le> 1) \<and>
           (\<forall>j < nat 3. Count (ts ! j) = 10 div 3 + (if int j < 10 mod 3 then 1 else 0))"
  using work_split_fair[of 10 3] by simp

section \<open>Properties of the executor configuration\<close>

lemma New_default: "NumWorkers (New numCPU []) = numCPU"
  by (simp add: New_def defaultOpts_def)

lemma New_snoc: "New numCPU (opts @ [fn]) = fn (New numCPU opts)"
  by (simp add: New_def)

text \<open>The worker count is the number of processors when no option is given, and
  otherwise the argument of the last \<open>WithWorkers\<close>, whatever it is.\<close>

lemma New_worker_count:
  "NumWorkers (New numCPU (map WithWorkers nums)) = last (numCPU # nums)"
proof (induction nums rule: rev_induct)
  case Nil
  show ?case by (simp add: New_default)
next
  case (snoc num nums)
  show ?case by (simp add: New_snoc WithWorkers_def)
qed

lemma serve_numWorkers_positive: "0 < numCPU \<Longrightarrow> 0 < serve_numWorkers numCPU ws"
  by (simp add: serve_numWorkers_def)

text \<open>
  Claim C5 fails on the code. On a machine with eight processors, \<open>New(WithWorkers(0))\<close>
  makes an executor with zero workers and \<open>New(WithWorkers(-3))\<close> one with a negative
  worker count, where the compute server's constructor, given the same values, takes the
  eight processors. With zero workers \<open>Run\<close> on one input returns the zero value and a
  nil error; with the negative count \<open>Run\<close> starts in a panic.
\<close>

theorem New_WithWorkers_nonpositive:
  "NumWorkers (New 8 [WithWorkers 0]) = 0 \<and>
   NumWorkers (New 8 [WithWorkers (- 3)]) = - 3 \<and>
   serve_numWorkers 8 [0] = 8 \<and>
   serve_numWorkers 8 [- 3] = 8 \<and>
   map_option outcome
     (Run (NumWorkers (New 8 [WithWorkers 0])) (0::int) False [5 :: int] square
        [CloseResults, CollectRecv])
     = Some (Returned (Some [0]) None) \<and>
   panicked (Run_init (NumWorkers (New 8 [WithWorkers (- 3)])) (0::int) False [5 :: int]
               :: (int, int) pool)"
  by (intro conjI; code_simp)

section \<open>Properties of the job registry\<close>

lemma jobExists_fst: "fst (jobExists newJob jobs) \<longleftrightarrow> ID newJob \<in> ID ` set jobs"
proof -
  have "foldl (\<lambda>exists job. if ID newJob = ID job then True else exists) b jobs
        \<longleftrightarrow> b \<or> ID newJob \<in> ID ` set jobs" for b
    by (induction jobs arbitrary: b) auto
  then show ?thesis by (simp add: jobExists_def Let_def)
qed

lemma jobExists_eq:
  "jobExists newJob jobs =
     (if ID newJob \<in> ID ` set jobs
      then (True, Some \<lparr>code = 409, payload = Conflict (ID newJob)\<rparr>) else (False, None))"
  using jobExists_fst[of newJob jobs] by (auto simp: jobExists_def Let_def)

lemma NewJob_valid:
  "0 < jid \<Longrightarrow> Cpu res \<noteq> [] \<Longrightarrow> Memory res \<noteq> [] \<Longrightarrow>
   NewJob jid res inp = Inr \<lparr>ID = jid, Status = ''pending'', Resources = res, Input = inp,
                            Output = Some Map.empty\<rparr>"
  by (simp add: NewJob_def StatusPending_def)

lemma NewJob_ok: "NewJob jid res inp = Inr j \<Longrightarrow> job_ok j \<and> ID j = jid"
  by (auto simp: NewJob_def job_ok_def StatusPending_def split: if_splits)

lemma post_jobs_cases:
  "post_jobs body jobs = (r, jobs') \<Longrightarrow>
     jobs' = jobs \<or>
     (\<exists>jr j. body = Some jr \<and> NewJob (req_ID jr) (req_Resources jr) (req_Input jr) = Inr j \<and>
             ID j \<notin> ID ` set jobs \<and> jobs' = jobs @ [j])"
  by (auto simp: post_jobs_def jobExists_eq split: option.splits sum.splits if_splits)

lemma post_jobs_inv: "registry_inv jobs \<Longrightarrow> registry_inv (snd (post_jobs body jobs))"
proof -
  assume inv: "registry_inv jobs"
  obtain r jobs' where p: "post_jobs body jobs = (r, jobs')" by (cases "post_jobs body jobs")
  from post_jobs_cases[OF p] show ?thesis
  proof
    assume "jobs' = jobs" with p inv show ?thesis by simp
  next
    assume "\<exists>jr j. body = Some jr \<and> NewJob (req_ID jr) (req_Resources jr) (req_Input jr) = Inr j \<and>
             ID j \<notin> ID ` set jobs \<and> jobs' = jobs @ [j]"
    then obtain jr :: jobRequest and j where j: "NewJob (req_ID jr) (req_Resources jr) (req_Input jr) = Inr j"
      "ID j \<notin> ID ` set jobs" "jobs' = jobs @ [j]" by auto
    from NewJob_ok[OF j(1)] have "job_ok j" by simp
    with inv j(2,3) have "registry_inv jobs'" by (auto simp: registry_inv_def)
    with p show ?thesis by simp
  qed
qed

lemma handle_inv: "registry_inv jobs \<Longrightarrow> registry_inv (snd (handle r jobs))"
  by (cases r) (auto simp: get_jobs_def get_job_def post_jobs_inv split: option.splits)

text \<open>
  Claim C7 as stated fails: a create request with a fresh positive identifier but an empty
  \<open>resources.cpu\<close> is refused by \<open>NewJob\<close> with status 400 and nothing is appended.
\<close>

theorem create_fresh_id_counterexample:
  "0 < req_ID \<lparr>req_ID = 1, req_Resources = \<lparr>Cpu = [], Memory = ''1G''\<rparr>, req_Input = None\<rparr> \<and>
   req_ID \<lparr>req_ID = 1, req_Resources = \<lparr>Cpu = [], Memory = ''1G''\<rparr>, req_Input = None\<rparr>
     \<notin> ID ` set [] \<and>
   post_jobs (Some \<lparr>req_ID = 1, req_Resources = \<lparr>Cpu = [], Memory = ''1G''\<rparr>, req_Input = None\<rparr>) []
     = (\<lparr>code = 400,
         payload = ValidationError ''resources.cpu and resources.memory are required''\<rparr>, [])"
  by (simp add: post_jobs_def NewJob_def)

text \<open>
  Claim C7, amended. A create request whose identifier equals the identifier of a stored
  job never changes the collection and is answered with status 400 or 409. If the request
  also passes the validation of \<open>NewJob\<close> (positive identifier, non-empty \<open>resources.cpu\<close>
  and \<open>resources.memory\<close>), a duplicate identifier is answered with the 409 conflict
  response, and a fresh identifier appends exactly the new pending job, which is returned
  with status 200.
\<close>

theorem create_job_conflict_or_append:
  "(req_ID jr \<in> ID ` set jobs \<longrightarrow>
      snd (post_jobs (Some jr) jobs) = jobs \<and>
      code (fst (post_jobs (Some jr) jobs)) \<in> {400, 409}) \<and>
   (0 < req_ID jr \<and> Cpu (req_Resources jr) \<noteq> [] \<and> Memory (req_Resources jr) \<noteq> [] \<longrightarrow>
      (req_ID jr \<in> ID ` set jobs \<longrightarrow>
         post_jobs (Some jr) jobs = (\<lparr>code = 409, payload = Conflict (req_ID jr)\<rparr>, jobs)) \<and>
      (req_ID jr \<notin> ID ` set jobs \<longrightarrow>
         post_jobs (Some jr) jobs =
           (\<lparr>code = 200,
             payload = OneJob \<lparr>ID = req_ID jr, Status = ''pending'', Resources = req_Resources jr,
                               Input = req_Input jr, Output = Some Map.empty\<rparr>\<rparr>,
            jobs @ [\<lparr>ID = req_ID jr, Status = ''pending'', Resources = req_Resources jr,
                     Input = req_Input jr, Output = Some Map.empty\<rparr>])))"
proof (intro conjI impI)
  assume dup: "req_ID jr \<in> ID ` set jobs"
  show "snd (post_jobs (Some jr) jobs) = jobs"
    using dup by (auto simp: post_jobs_def jobExists_eq written_def dest: NewJob_ok split: sum.splits)
  show "code (fst (post_jobs (Some jr) jobs)) \<in> {400, 409}"
    using dup by (auto simp: post_jobs_def jobExists_eq written_def dest: NewJob_ok split: sum.splits)
next
  assume v: "0 < req_ID jr \<and> Cpu (req_Resources jr) \<noteq> [] \<and> Memory (req_Resources jr) \<noteq> []"
    and dup: "req_ID jr \<in> ID ` set jobs"
  show "post_jobs (Some jr) jobs = (\<lparr>code = 409, payload = Conflict (req_ID jr)\<rparr>, jobs)"
    using v dup by (simp add: post_jobs_def NewJob_valid jobExists_eq written_def)
next
  assume v: "0 < req_ID jr \<and> Cpu (req_Resources jr) \<noteq> [] \<and> Memory (req_Resources jr) \<noteq> []"
    and fresh: "req_ID jr \<notin> ID ` set jobs"
  show "post_jobs (Some jr) jobs =
           (\<lparr>code = 200,
             payload = OneJob \<lparr>ID = req_ID jr, Status = ''pending'', Resources = req_Resources jr,
                               Input = req_Input jr, Output = Some Map.empty\<rparr>\<rparr>,
            jobs @ [\<lparr>ID = req_ID jr, Status = ''pending'', Resources = req_Resources jr,
                     Input = req_Input jr, Output = Some Map.empty\<rparr>])"
    using v fresh by (simp add: post_jobs_def NewJob_valid jobExists_eq)
qed

text \<open>The theorem at a stored job 7: a second request with identifier 7 is a conflict, a
  request with identifier 8 is appended.\<close>

theorem create_job_conflict_or_append_witness:
  "post_jobs (Some \<lparr>req_ID = 7, req_Resources = \<lparr>Cpu = ''2'', Memory = ''1G''\<rparr>, req_Input = None\<rparr>)
      [\<lparr>ID = 7, Status = ''pending'', Resources = \<lparr>Cpu = ''1'', Memory = ''4G''\<rparr>, Input = None,
        Output = Some Map.empty\<rparr>]
    = (\<lparr>code = 409, payload = Conflict 7\<rparr>,
       [\<lparr>ID = 7, Status = ''pending'', Resources = \<lparr>Cpu = ''1'', Memory = ''4G''\<rparr>, Input = None,
        Output = Some Map.empty\<rparr>]) \<and>
   post_jobs (Some \<lparr>req_ID = 8, req_Resources = \<lparr>Cpu = ''2'', Memory = ''1G''\<rparr>, req_Input = None\<rparr>)
      [\<lparr>ID = 7, Status = ''pending'', Resources = \<lparr>Cpu = ''1'', Memory = ''4G''\<rparr>, Input = None,
        Output = Some Map.empty\<rparr>]
    = (\<lparr>code = 200,
        payload = OneJob \<lparr>ID = 8, Status = ''pending'', Resources = \<lparr>Cpu = ''2'', Memory = ''1G''\<rparr>,
                          Input = None, Output = Some Map.empty\<rparr>\<rparr>,
       [\<lparr>ID = 7, Status = ''pending'', Resources = \<lparr>Cpu = ''1'', Memory = ''4G''\<rparr>, Input = None,
         Output = Some Map.empty\<rparr>,
        \<lparr>ID = 8, Status = ''pending'', Resources = \<lparr>Cpu = ''2'', Memory = ''1G''\<rparr>, Input = None,
         Output = Some Map.empty\<rparr>])"
  using create_job_conflict_or_append
          [of "\<lparr>req_ID = 7, req_Resources = \<lparr>Cpu = ''2'', Memory = ''1G''\<rparr>, req_Input = None\<rparr>"
              "[\<lparr>ID = 7, Status = ''pending'', Resources = \<lparr>Cpu = ''1'', Memory = ''4G''\<rparr>,
                 Input = None, Output = Some Map.empty\<rparr>]"]
        create_job_conflict_or_append
          [of "\<lparr>req_ID = 8, req_Resources = \<lparr>Cpu = ''2'', Memory = ''1G''\<rparr>, req_Input = None\<rparr>"
              "[\<lparr>ID = 7, Status = ''pending'', Resources = \<lparr>Cpu = ''1'', Memory = ''4G''\<rparr>,
                 Input = None, Output = Some Map.empty\<rparr>]"]
  by simp

subsection \<open>Handlers that run at the same time\<close>

text \<open>A handler that runs alone, from the arrival of its request to its reply, does what
  \<open>handle\<close> says: the transition system has the sequential handlers among its runs.\<close>

lemma handler_alone:
  "\<exists>es. set es \<subseteq> {Advance (length (r_handlers s))} \<and>
        r_exec (Accept r # es) s
          = Some \<lparr>r_jobs = snd (handle r (r_jobs s)),
                   r_handlers = r_handlers s @ [Replied (fst (handle r (r_jobs s)))]\<rparr>"
proof -
  let ?n = "length (r_handlers s)"
  let ?goal = "\<lambda>es. set es \<subseteq> {Advance ?n} \<and>
        r_exec (Accept r # es) s
          = Some \<lparr>r_jobs = snd (handle r (r_jobs s)),
                   r_handlers = r_handlers s @ [Replied (fst (handle r (r_jobs s)))]\<rparr>"
  show ?thesis
  proof (cases r)
    case ListJobs
    then have "?goal [Advance ?n]"
      by (simp add: r_step_def start_def next_stmt_def get_jobs_def)
    then show ?thesis by blast
  next
    case (GetJob idParam)
    then have "?goal [Advance ?n]"
      by (simp add: r_step_def start_def next_stmt_def get_job_def split: option.splits)
    then show ?thesis by blast
  next
    case (CreateJob body)
    show ?thesis
    proof (cases body)
      case None
      with CreateJob have "?goal []" by (simp add: r_step_def start_def post_jobs_def)
      then show ?thesis by blast
    next
      case (Some jr)
      show ?thesis
      proof (cases "NewJob (req_ID jr) (req_Resources jr) (req_Input jr)")
        case (Inl err)
        with CreateJob Some have "?goal []" by (simp add: r_step_def start_def post_jobs_def)
        then show ?thesis by blast
      next
        case (Inr newJob)
        show ?thesis
        proof (cases "ID newJob \<in> ID ` set (r_jobs s)")
          case True
          with CreateJob Some Inr have "?goal [Advance ?n]"
            by (simp add: r_step_def start_def post_jobs_def next_stmt_def jobExists_eq)
          then show ?thesis by blast
        next
          case False
          with CreateJob Some Inr have "?goal [Advance ?n, Advance ?n]"
            by (simp add: r_step_def start_def post_jobs_def next_stmt_def jobExists_eq)
          then show ?thesis by blast
        qed
      qed
    qed
  qed
qed

text \<open>Whatever the interleaving, every stored job has passed \<open>NewJob\<close>: its ID is
  strictly positive, its resources are non-empty, its status is \<open>"pending"\<close> and its
  \<open>Output\<close> map is not nil.\<close>

lemma start_ok: "handler_ok (start r)"
  by (auto simp add: start_def dest: NewJob_ok split: request.splits option.splits sum.splits)

lemma next_stmt_ok:
  assumes "handler_ok h" "\<forall>j \<in> set jobs. job_ok j" "next_stmt h jobs = Some (h', jobs')"
  shows "handler_ok h' \<and> (\<forall>j \<in> set jobs'. job_ok j)"
  using assms
  by (cases h) (auto simp add: next_stmt_def jobExists_eq split: if_splits)

lemma r_step_ok:
  assumes "\<forall>j \<in> set (r_jobs s). job_ok j" "\<forall>h \<in> set (r_handlers s). handler_ok h"
    "r_step e s = Some s'"
  shows "(\<forall>j \<in> set (r_jobs s'). job_ok j) \<and> (\<forall>h \<in> set (r_handlers s'). handler_ok h)"
proof (cases e)
  case (Accept r)
  with assms show ?thesis by (auto simp add: r_step_def start_ok)
next
  case (Advance k)
  with assms(3) obtain h' jobs' where
    k: "k < length (r_handlers s)"
    and n: "next_stmt (r_handlers s ! k) (r_jobs s) = Some (h', jobs')"
    and s': "s' = \<lparr>r_jobs = jobs', r_handlers = (r_handlers s)[k := h']\<rparr>"
    by (auto simp add: r_step_def split: if_splits option.splits)
  from assms(2) k have "handler_ok (r_handlers s ! k)" by simp
  from next_stmt_ok[OF this assms(1) n] have ok: "handler_ok h'" "\<forall>j \<in> set jobs'. job_ok j"
    by simp_all
  have "\<forall>h \<in> set ((r_handlers s)[k := h']). handler_ok h"
    using assms(2) ok(1) set_update_subset_insert[of "r_handlers s" k h'] by auto
  with ok(2) show ?thesis by (simp add: s')
qed

lemma r_exec_ok:
  "\<forall>j \<in> set (r_jobs s). job_ok j \<Longrightarrow> \<forall>h \<in> set (r_handlers s). handler_ok h \<Longrightarrow>
   r_exec es s = Some s' \<Longrightarrow> \<forall>j \<in> set (r_jobs s'). job_ok j"
proof (induction es arbitrary: s)
  case Nil then show ?case by simp
next
  case (Cons e es)
  from Cons.prems(3) obtain s1 where 1: "r_step e s = Some s1" "r_exec es s1 = Some s'"
    by (auto split: option.splits)
  from r_step_ok[OF Cons.prems(1,2) 1(1)] Cons.IH[OF _ _ 1(2)] show ?case by blast
qed

lemma stored_jobs_ok: "r_exec es r_init = Some s \<Longrightarrow> \<forall>j \<in> set (r_jobs s). job_ok j"
  using r_exec_ok[of r_init es s] by (simp add: r_init_def)

text \<open>
  Claim C10 fails on the code: the stored IDs are not always pairwise distinct. Two
  \<open>POST /jobs\<close> requests with the identifier 7 arrive at the same time. Both handlers run
  \<open>jobExists\<close> (line 138) on the empty registry and find no job 7; then both run
  \<open>append\<close> (line 142). Both requests are answered 200 and the registry holds two jobs
  with the ID 7. When the second request arrives after the first handler has returned, it
  is answered 409 and the registry holds one job 7, as the claim says.
\<close>

theorem concurrent_create_duplicate_id:
  "map_option (\<lambda>s. (map ID (r_jobs s), map reply_code (r_handlers s)))
     (r_exec
        [Accept (CreateJob (Some \<lparr>req_ID = 7, req_Resources = \<lparr>Cpu = ''1'', Memory = ''4G''\<rparr>,
                                 req_Input = None\<rparr>)),
         Accept (CreateJob (Some \<lparr>req_ID = 7, req_Resources = \<lparr>Cpu = ''9'', Memory = ''9G''\<rparr>,
                                 req_Input = None\<rparr>)),
         Advance 0, Advance 1, Advance 0, Advance 1] r_init)
     = Some ([7, 7], [Some 200, Some 200]) \<and>
   map_option (\<lambda>s. (map ID (r_jobs s), map reply_code (r_handlers s)))
     (r_exec
        [Accept (CreateJob (Some \<lparr>req_ID = 7, req_Resources = \<lparr>Cpu = ''1'', Memory = ''4G''\<rparr>,
                                 req_Input = None\<rparr>)),
         Advance 0, Advance 0,
         Accept (CreateJob (Some \<lparr>req_ID = 7, req_Resources = \<lparr>Cpu = ''9'', Memory = ''9G''\<rparr>,
                                 req_Input = None\<rparr>)),
         Advance 1] r_init)
     = Some ([7], [Some 200, Some 409])"
  by (intro conjI; code_simp)

section \<open>Properties of Run\<close>

subsection \<open>Events\<close>

lemma in_set_updD: "w \<in> set (xs[k := y]) \<Longrightarrow> w = y \<or> w \<in> set xs"
  using set_update_subset_insert[of xs k y] by auto

lemma sum_list_map_upd:
  "k < length xs \<Longrightarrow>
   sum_list (map f (xs[k := y])) + f (xs ! k) = sum_list (map f xs) + (f y :: 'b :: comm_monoid_add)"
proof (induction xs arbitrary: k)
  case Nil then show ?case by simp
next
  case (Cons x xs) then show ?case by (cases k) (auto simp add: ac_simps)
qed

lemma take_Suc_zip_upt:
  "i < length inputs \<Longrightarrow>
   take (Suc i) (zip [0..<length inputs] inputs) = take i (zip [0..<length inputs] inputs) @ [(i, inputs ! i)]"
  by (simp add: take_Suc_conv_app_nth)

text \<open>The shape of each event: when it is ready, and the state it leads to.\<close>

lemma cancel_shape:
  "cancel s = Some s' \<Longrightarrow> \<not> ctx_done s \<and> s' = s\<lparr>ctx_done := True\<rparr>"
  by (simp add: cancel_def split: if_splits)

lemma feed_shape:
  "feed inputs k s = Some s' \<Longrightarrow>
   \<exists>i. feeder s = Feeding i \<and> i < length inputs \<and> k < length (workers s) \<and>
       workers s ! k = AtSelect \<and>
       s' = s\<lparr>feeder := Feeding (Suc i), sent := sent s @ [(i, inputs ! i)],
              workers := (workers s)[k := Pulled i (inputs ! i)]\<rparr>"
  by (cases "feeder s") (simp_all add: feed_def split: if_splits)

lemma feeder_done_shape:
  "feeder_done inputs s = Some s' \<Longrightarrow>
   \<exists>i. feeder s = Feeding i \<and> i < length inputs \<and> ctx_done s \<and> s' = s\<lparr>feeder := Stopped i\<rparr>"
  by (cases "feeder s") (simp_all add: feeder_done_def split: if_splits)

lemma close_tasks_shape:
  "close_tasks inputs s = Some s' \<Longrightarrow>
   \<exists>i. feeder s = Feeding i \<and> length inputs \<le> i \<and>
       s' = s\<lparr>feeder := Closed, tasks_closes := Suc (tasks_closes s)\<rparr>"
  by (cases "feeder s") (simp_all add: close_tasks_def split: if_splits)

lemma worker_done_shape:
  "worker_done k s = Some s' \<Longrightarrow>
   k < length (workers s) \<and> workers s ! k \<noteq> Gone \<and> ctx_done s \<and>
   s' = s\<lparr>workers := (workers s)[k := Gone], wg := wg_add (wg s) (- 1),
          panicked := (wg_add (wg s) (- 1) < 0)\<rparr>"
  by (simp add: worker_done_def split: if_splits)

lemma worker_closed_shape:
  "worker_closed k s = Some s' \<Longrightarrow>
   k < length (workers s) \<and> workers s ! k = AtSelect \<and> 0 < tasks_closes s \<and>
   s' = s\<lparr>workers := (workers s)[k := Gone], wg := wg_add (wg s) (- 1),
          panicked := (wg_add (wg s) (- 1) < 0)\<rparr>"
  by (simp add: worker_closed_def split: if_splits)

lemma work_shape:
  "work fn k s = Some s' \<Longrightarrow>
   \<exists>i x. k < length (workers s) \<and> \<not> ctx_done s \<and> workers s ! k = Pulled i x \<and>
         s' = s\<lparr>workers := (workers s)[k := AtSend i (fn x)]\<rparr>"
  by (cases "workers s ! k") (simp_all add: work_def split: if_splits)

lemma send_shape:
  "send inputs k s = Some s' \<Longrightarrow>
   \<exists>i y. k < length (workers s) \<and> workers s ! k = AtSend i y \<and>
         (if results_closed s then s' = s\<lparr>panicked := True\<rparr>
          else length (results s) < length inputs \<and>
               s' = s\<lparr>results := results s @ [(i, y)], workers := (workers s)[k := AtSelect]\<rparr>)"
  by (cases "workers s ! k") (simp_all add: send_def split: if_splits)

lemma close_results_shape:
  "close_results s = Some s' \<Longrightarrow>
   \<not> results_closed s \<and> wg s = 0 \<and> s' = s\<lparr>results_closed := True\<rparr>"
  by (simp add: close_results_def split: if_splits)

lemma collect_exit_shape:
  "collect_exit inputs s = Some s' \<Longrightarrow>
   outcome s = Running \<and> length inputs \<le> collected s \<and>
   s' = s\<lparr>outcome := Returned (Some (outputs s)) None\<rparr>"
  by (simp add: collect_exit_def split: if_splits)

lemma collect_done_shape:
  "collect_done inputs s = Some s' \<Longrightarrow>
   outcome s = Running \<and> collected s < length inputs \<and> ctx_done s \<and>
   s' = s\<lparr>outcome := Returned None (Some ContextError)\<rparr>"
  by (simp add: collect_done_def split: if_splits)

lemma collect_recv_shape:
  "collect_recv inputs s = Some s' \<Longrightarrow>
   outcome s = Running \<and> collected s < length inputs \<and>
   (case results s of
      [] \<Rightarrow> results_closed s \<and> s' = s\<lparr>outcome := Returned (Some (outputs s)) None\<rparr>
    | r # rest \<Rightarrow>
        if fst r < length (outputs s)
        then s' = s\<lparr>results := rest, outputs := (outputs s)[fst r := snd r],
                    collected := Suc (collected s)\<rparr>
        else s' = s\<lparr>panicked := True\<rparr>)"
  by (cases "results s") (auto simp add: collect_recv_def split: if_splits)

subsection \<open>What every execution preserves\<close>

lemmas safe_defs = safe_def feeder_inv_def items_inv_def outputs_inv_def outcome_inv_def

lemmas sound_defs = sound_def feeder_inv_def items_inv_def outputs_inv_def closing_inv_def
  outcome_inv_def wg_inv_def

lemma sound_safe: "sound fn zero inputs s \<Longrightarrow> safe fn zero inputs s"
  by (simp add: sound_def safe_def)

lemma soundI:
  "safe fn zero inputs s \<Longrightarrow> \<not> panicked s \<Longrightarrow> closing_inv s \<Longrightarrow> wg_inv s \<Longrightarrow>
   sound fn zero inputs s"
  by (simp add: sound_def safe_def)

lemma safe_worker:
  "safe fn zero inputs s \<Longrightarrow> k < length (workers s) \<Longrightarrow> worker_ok fn inputs (workers s ! k)"
  by (simp add: safe_def items_inv_def)

lemma sound_worker:
  "sound fn zero inputs s \<Longrightarrow> k < length (workers s) \<Longrightarrow> worker_ok fn inputs (workers s ! k)"
  by (simp add: sound_def items_inv_def)

lemma sound_open:
  "sound fn zero inputs s \<Longrightarrow> k < length (workers s) \<Longrightarrow> workers s ! k \<noteq> Gone \<Longrightarrow>
   \<not> results_closed s"
  using nth_mem[of k "workers s"] by (auto simp add: sound_def closing_inv_def)

lemma workers_upd_ok:
  "\<forall>w \<in> set ws. worker_ok fn inputs w \<Longrightarrow> worker_ok fn inputs w' \<Longrightarrow>
   \<forall>w \<in> set (ws[k := w']). worker_ok fn inputs w"
  by (auto dest!: in_set_updD)

lemma workers_upd_Gone:
  "\<forall>w \<in> set ws. w = Gone \<Longrightarrow> \<forall>w \<in> set (ws[k := Gone]). w = Gone"
  by (auto dest!: in_set_updD)

text \<open>The four parts that hold whatever the worker count.\<close>

lemma cancel_safe: "safe fn zero inputs s \<Longrightarrow> cancel s = Some s' \<Longrightarrow> safe fn zero inputs s'"
  by (drule cancel_shape) (simp add: safe_defs)

lemma feeder_done_safe:
  "safe fn zero inputs s \<Longrightarrow> feeder_done inputs s = Some s' \<Longrightarrow> safe fn zero inputs s'"
  by (drule feeder_done_shape) (auto simp add: safe_defs)

lemma close_tasks_safe:
  "safe fn zero inputs s \<Longrightarrow> close_tasks inputs s = Some s' \<Longrightarrow> safe fn zero inputs s'"
  by (drule close_tasks_shape) (auto simp add: safe_defs)

lemma feed_safe:
  assumes "safe fn zero inputs s" "feed inputs k s = Some s'"
  shows "safe fn zero inputs s'"
proof -
  from feed_shape[OF assms(2)] obtain i where
    f: "feeder s = Feeding i" "i < length inputs" "k < length (workers s)"
       "workers s ! k = AtSelect"
    and s': "s' = s\<lparr>feeder := Feeding (Suc i), sent := sent s @ [(i, inputs ! i)],
                     workers := (workers s)[k := Pulled i (inputs ! i)]\<rparr>"
    by blast
  have 1: "feeder_inv inputs s'"
    using assms(1) f by (simp add: s' safe_def feeder_inv_def take_Suc_zip_upt)
  have 2: "items_inv fn inputs s'"
    using assms(1) f workers_upd_ok[of "workers s" fn inputs "Pulled i (inputs ! i)" k]
    by (simp add: s' safe_def items_inv_def)
  have 3: "outputs_inv fn zero inputs s'" "outcome_inv inputs s'"
    using assms(1) by (simp_all add: s' safe_def outputs_inv_def outcome_inv_def)
  from 1 2 3 show ?thesis by (simp add: safe_def)
qed

lemma worker_gone_safe:
  assumes "safe fn zero inputs s"
    "s' = s\<lparr>workers := (workers s)[k := Gone], wg := v, panicked := p\<rparr>"
  shows "safe fn zero inputs s'"
proof -
  have 1: "feeder_inv inputs s'" "outputs_inv fn zero inputs s'" "outcome_inv inputs s'"
    using assms(1)
    by (simp_all add: assms(2) safe_def feeder_inv_def outputs_inv_def outcome_inv_def)
  have 2: "items_inv fn inputs s'"
    using assms(1) workers_upd_ok[of "workers s" fn inputs Gone k]
    by (simp add: assms(2) safe_def items_inv_def)
  from 1 2 show ?thesis by (simp add: safe_def)
qed

lemma worker_done_safe:
  "safe fn zero inputs s \<Longrightarrow> worker_done k s = Some s' \<Longrightarrow> safe fn zero inputs s'"
  by (drule worker_done_shape) (blast intro: worker_gone_safe)

lemma worker_closed_safe:
  "safe fn zero inputs s \<Longrightarrow> worker_closed k s = Some s' \<Longrightarrow> safe fn zero inputs s'"
  by (drule worker_closed_shape) (blast intro: worker_gone_safe)

lemma work_safe:
  assumes "safe fn zero inputs s" "work fn k s = Some s'"
  shows "safe fn zero inputs s'"
proof -
  from work_shape[OF assms(2)] obtain i x where
    f: "k < length (workers s)" "workers s ! k = Pulled i x"
    and s': "s' = s\<lparr>workers := (workers s)[k := AtSend i (fn x)]\<rparr>"
    by blast
  have ok: "worker_ok fn inputs (AtSend i (fn x))"
    using safe_worker[OF assms(1) f(1)] f(2) by simp
  have 1: "feeder_inv inputs s'" "outputs_inv fn zero inputs s'" "outcome_inv inputs s'"
    using assms(1) by (simp_all add: s' safe_def feeder_inv_def outputs_inv_def outcome_inv_def)
  have 2: "items_inv fn inputs s'"
    using assms(1) workers_upd_ok[OF _ ok, of "workers s" k]
    by (simp add: s' safe_def items_inv_def)
  from 1 2 show ?thesis by (simp add: safe_def)
qed

lemma send_safe:
  assumes "safe fn zero inputs s" "send inputs k s = Some s'"
  shows "safe fn zero inputs s'"
proof -
  from send_shape[OF assms(2)] obtain i y where
    f: "k < length (workers s)" "workers s ! k = AtSend i y"
    and c: "if results_closed s then s' = s\<lparr>panicked := True\<rparr>
          else length (results s) < length inputs \<and>
               s' = s\<lparr>results := results s @ [(i, y)], workers := (workers s)[k := AtSelect]\<rparr>"
    by blast
  show ?thesis
  proof (cases "results_closed s")
    case True
    with c have s': "s' = s\<lparr>panicked := True\<rparr>" by simp
    show ?thesis using assms(1) by (simp add: s' safe_defs)
  next
    case False
    with c have s': "s' = s\<lparr>results := results s @ [(i, y)],
                             workers := (workers s)[k := AtSelect]\<rparr>" by simp
    have ok: "i < length inputs \<and> y = fn (inputs ! i)"
      using safe_worker[OF assms(1) f(1)] f(2) by simp
    have 1: "feeder_inv inputs s'" "outputs_inv fn zero inputs s'" "outcome_inv inputs s'"
      using assms(1) by (simp_all add: s' safe_def feeder_inv_def outputs_inv_def outcome_inv_def)
    have 2: "items_inv fn inputs s'"
      using assms(1) ok workers_upd_ok[of "workers s" fn inputs AtSelect k]
      by (simp add: s' safe_def items_inv_def)
    from 1 2 show ?thesis by (simp add: safe_def)
  qed
qed

lemma close_results_safe:
  "safe fn zero inputs s \<Longrightarrow> close_results s = Some s' \<Longrightarrow> safe fn zero inputs s'"
  by (drule close_results_shape) (simp add: safe_defs)

lemma collect_exit_safe:
  "safe fn zero inputs s \<Longrightarrow> collect_exit inputs s = Some s' \<Longrightarrow> safe fn zero inputs s'"
  by (drule collect_exit_shape) (simp add: safe_defs)

lemma collect_done_safe:
  "safe fn zero inputs s \<Longrightarrow> collect_done inputs s = Some s' \<Longrightarrow> safe fn zero inputs s'"
  by (drule collect_done_shape) (simp add: safe_defs)

lemma collect_recv_shape_Cons:
  assumes "safe fn zero inputs s" "collect_recv inputs s = Some s'" "results s = r # rest"
  shows "outcome s = Running \<and> fst r < length inputs \<and> snd r = fn (inputs ! fst r) \<and>
         length (outputs s) = length inputs \<and>
         s' = s\<lparr>results := rest, outputs := (outputs s)[fst r := snd r],
                collected := Suc (collected s)\<rparr>"
proof -
  have r: "fst r < length inputs" "snd r = fn (inputs ! fst r)"
    using assms(1,3) by (simp_all add: safe_def items_inv_def)
  have len: "length (outputs s) = length inputs"
    using assms(1) by (simp add: safe_def outputs_inv_def)
  from collect_recv_shape[OF assms(2)] assms(3) r(1) len r(2) show ?thesis by simp
qed

lemma collect_recv_safe:
  assumes "safe fn zero inputs s" "collect_recv inputs s = Some s'"
  shows "safe fn zero inputs s'"
proof (cases "results s")
  case Nil
  with collect_recv_shape[OF assms(2)]
  have s': "s' = s\<lparr>outcome := Returned (Some (outputs s)) None\<rparr>" by simp
  show ?thesis using assms(1) by (simp add: s' safe_defs)
next
  case (Cons r rest)
  have rest: "\<forall>r \<in> set rest. fst r < length inputs \<and> snd r = fn (inputs ! fst r)"
    using assms(1) Cons by (simp add: safe_def items_inv_def)
  from collect_recv_shape_Cons[OF assms Cons]
  have run: "outcome s = Running"
    and r: "fst r < length inputs" "snd r = fn (inputs ! fst r)"
    and s': "s' = s\<lparr>results := rest, outputs := (outputs s)[fst r := snd r],
                    collected := Suc (collected s)\<rparr>" by simp_all
  have 1: "feeder_inv inputs s'"
    using assms(1) by (simp add: s' safe_def feeder_inv_def)
  have 2: "items_inv fn inputs s'"
    using assms(1) rest by (simp add: s' safe_def items_inv_def)
  have 3: "outputs_inv fn zero inputs s'"
    using assms(1) r by (simp add: s' safe_def outputs_inv_def nth_list_update)
  have 4: "outcome_inv inputs s'" using run by (simp add: s' outcome_inv_def)
  from 1 2 3 4 show ?thesis by (simp add: safe_def)
qed

lemma step_safe:
  "safe fn zero inputs s \<Longrightarrow> step fn inputs e s = Some s' \<Longrightarrow> safe fn zero inputs s'"
  by (cases e)
     (auto simp add: step_def split: if_splits
           intro: cancel_safe feed_safe feeder_done_safe close_tasks_safe worker_done_safe
                  worker_closed_safe work_safe send_safe close_results_safe
                  collect_exit_safe collect_done_safe collect_recv_safe)

lemma exec_safe:
  "safe fn zero inputs s \<Longrightarrow> exec fn inputs es s = Some s' \<Longrightarrow> safe fn zero inputs s'"
proof (induction es arbitrary: s)
  case Nil then show ?case by simp
next
  case (Cons e es)
  then show ?case by (auto split: option.splits dest: step_safe)
qed

lemma Run_init_safe: "safe fn zero inputs (Run_init numWorkers zero done0 inputs)"
  by (simp add: Run_init_def safe_defs)

lemma Run_safe:
  "Run numWorkers zero done0 inputs fn es = Some s \<Longrightarrow> safe fn zero inputs s"
  unfolding Run_def by (rule exec_safe[OF Run_init_safe])

text \<open>The wait group, for a worker count from 0 to \<open>2^31 - 1\<close>.\<close>

lemma int32_id: "0 \<le> x \<Longrightarrow> x < 2147483648 \<Longrightarrow> int32 x = x"
  by (simp add: int32_def)

lemma wg_add_first: "0 \<le> n \<Longrightarrow> n < 2147483648 \<Longrightarrow> wg_add 0 n = n"
  by (simp add: wg_add_def int32_id)

lemma wg_add_done: "0 < v \<Longrightarrow> v < 2147483648 \<Longrightarrow> wg_add v (- 1) = v - 1"
  by (simp add: wg_add_def int32_id)

lemma alive_upd:
  "k < length ws \<Longrightarrow>
   int (sum_list (map alive (ws[k := w']))) + int (alive (ws ! k))
     = int (sum_list (map alive ws)) + int (alive w')"
  using sum_list_map_upd[of k ws alive w'] by (simp flip: of_nat_add)

lemma alive_none: "sum_list (map alive ws) = 0 \<Longrightarrow> \<forall>w \<in> set ws. w = Gone"
proof
  fix w assume "sum_list (map alive ws) = 0" "w \<in> set ws"
  then have "alive w = 0" by (simp add: sum_list_eq_0_iff)
  then show "w = Gone" by (cases w) simp_all
qed

lemma alive_all_Gone: "\<forall>w \<in> set ws. w = Gone \<Longrightarrow> sum_list (map alive ws) = 0"
  by (induction ws) auto

lemma alive_not_Gone: "w \<noteq> Gone \<Longrightarrow> alive w = 1"
  by (cases w) simp_all

lemma wg_inv_upd:
  assumes "wg_inv s" "k < length (workers s)" "alive w' = alive (workers s ! k)"
    "workers s' = (workers s)[k := w']" "wg s' = wg s"
  shows "wg_inv s'"
  using assms alive_upd[OF assms(2), of w'] by (simp add: wg_inv_def)

lemma cancel_sound: "sound fn zero inputs s \<Longrightarrow> cancel s = Some s' \<Longrightarrow> sound fn zero inputs s'"
  by (drule cancel_shape) (simp add: sound_defs)

lemma feeder_done_sound:
  "sound fn zero inputs s \<Longrightarrow> feeder_done inputs s = Some s' \<Longrightarrow> sound fn zero inputs s'"
  by (drule feeder_done_shape) (auto simp add: sound_defs)

lemma close_tasks_sound:
  "sound fn zero inputs s \<Longrightarrow> close_tasks inputs s = Some s' \<Longrightarrow> sound fn zero inputs s'"
  by (drule close_tasks_shape) (auto simp add: sound_defs)

lemma feed_sound:
  assumes "sound fn zero inputs s" "feed inputs k s = Some s'"
  shows "sound fn zero inputs s'"
proof -
  from feed_shape[OF assms(2)] obtain i where
    f: "k < length (workers s)" "workers s ! k = AtSelect"
    and s': "s' = s\<lparr>feeder := Feeding (Suc i), sent := sent s @ [(i, inputs ! i)],
                     workers := (workers s)[k := Pulled i (inputs ! i)]\<rparr>"
    by blast
  have op: "\<not> results_closed s" using sound_open[OF assms(1) f(1)] f(2) by simp
  have 1: "\<not> panicked s'" using assms(1) by (simp add: s' sound_def)
  have 2: "closing_inv s'" using op by (simp add: s' closing_inv_def)
  have 3: "wg_inv s'"
    by (rule wg_inv_upd[where s = s and k = k and w' = "Pulled i (inputs ! i)"])
       (use assms(1) f in \<open>simp_all add: s' sound_def\<close>)
  from soundI[OF feed_safe[OF sound_safe[OF assms(1)] assms(2)] 1 2 3] show ?thesis .
qed

lemma worker_gone_sound:
  assumes "sound fn zero inputs s" "k < length (workers s)" "workers s ! k \<noteq> Gone"
    "s' = s\<lparr>workers := (workers s)[k := Gone], wg := wg_add (wg s) (- 1),
            panicked := (wg_add (wg s) (- 1) < 0)\<rparr>"
  shows "sound fn zero inputs s'"
proof -
  have inv: "wg s = int (sum_list (map alive (workers s)))" "wg s < 2147483648"
    using assms(1) by (simp_all add: sound_def wg_inv_def)
  have upd: "int (sum_list (map alive ((workers s)[k := Gone]))) + 1
       = int (sum_list (map alive (workers s)))"
    using alive_upd[OF assms(2), of Gone] alive_not_Gone[OF assms(3)] by simp
  with inv have pos: "0 < wg s" by linarith
  have v: "wg_add (wg s) (- 1) = wg s - 1" using wg_add_done[OF pos inv(2)] .
  have 1: "\<not> panicked s'" using pos by (simp add: assms(4) v)
  have 2: "closing_inv s'"
    using assms(1) workers_upd_Gone[of "workers s" k]
    by (simp add: assms(4) sound_def closing_inv_def)
  have w3: "wg s' = wg s - 1" "workers s' = (workers s)[k := Gone]"
    by (simp_all add: assms(4) v)
  have 3: "wg_inv s'" unfolding wg_inv_def w3 using inv upd by (intro conjI; linarith)
  from soundI[OF worker_gone_safe[OF sound_safe[OF assms(1)] assms(4)] 1 2 3] show ?thesis .
qed

lemma worker_done_sound:
  "sound fn zero inputs s \<Longrightarrow> worker_done k s = Some s' \<Longrightarrow> sound fn zero inputs s'"
  by (drule worker_done_shape) (blast intro: worker_gone_sound)

lemma worker_closed_sound:
  assumes "sound fn zero inputs s" "worker_closed k s = Some s'"
  shows "sound fn zero inputs s'"
proof -
  from worker_closed_shape[OF assms(2)] have
    f: "k < length (workers s)" "workers s ! k = AtSelect"
    and s': "s' = s\<lparr>workers := (workers s)[k := Gone], wg := wg_add (wg s) (- 1),
                     panicked := (wg_add (wg s) (- 1) < 0)\<rparr>" by simp_all
  from f(2) have "workers s ! k \<noteq> Gone" by simp
  from worker_gone_sound[OF assms(1) f(1) this s'] show ?thesis .
qed

lemma work_sound:
  assumes "sound fn zero inputs s" "work fn k s = Some s'"
  shows "sound fn zero inputs s'"
proof -
  from work_shape[OF assms(2)] obtain i x where
    f: "k < length (workers s)" "workers s ! k = Pulled i x"
    and s': "s' = s\<lparr>workers := (workers s)[k := AtSend i (fn x)]\<rparr>"
    by blast
  have op: "\<not> results_closed s" using sound_open[OF assms(1) f(1)] f(2) by simp
  have 1: "\<not> panicked s'" using assms(1) by (simp add: s' sound_def)
  have 2: "closing_inv s'" using op by (simp add: s' closing_inv_def)
  have 3: "wg_inv s'"
    by (rule wg_inv_upd[where s = s and k = k and w' = "AtSend i (fn x)"])
       (use assms(1) f in \<open>simp_all add: s' sound_def\<close>)
  from soundI[OF work_safe[OF sound_safe[OF assms(1)] assms(2)] 1 2 3] show ?thesis .
qed

lemma send_open:
  assumes "sound fn zero inputs s" "send inputs k s = Some s'"
  shows "\<exists>i y. k < length (workers s) \<and> workers s ! k = AtSend i y \<and>
           length (results s) < length inputs \<and>
           s' = s\<lparr>results := results s @ [(i, y)], workers := (workers s)[k := AtSelect]\<rparr>"
proof -
  from send_shape[OF assms(2)] obtain i y where
    f: "k < length (workers s)" "workers s ! k = AtSend i y"
    and c: "if results_closed s then s' = s\<lparr>panicked := True\<rparr>
          else length (results s) < length inputs \<and>
               s' = s\<lparr>results := results s @ [(i, y)], workers := (workers s)[k := AtSelect]\<rparr>"
    by blast
  have "\<not> results_closed s" using sound_open[OF assms(1) f(1)] f(2) by simp
  with c f show ?thesis by simp
qed

lemma send_sound:
  assumes "sound fn zero inputs s" "send inputs k s = Some s'"
  shows "sound fn zero inputs s'"
proof -
  from send_open[OF assms] obtain i y where
    f: "k < length (workers s)" "workers s ! k = AtSend i y"
    and s': "s' = s\<lparr>results := results s @ [(i, y)], workers := (workers s)[k := AtSelect]\<rparr>"
    by blast
  have op: "\<not> results_closed s" using sound_open[OF assms(1) f(1)] f(2) by simp
  have 1: "\<not> panicked s'" using assms(1) by (simp add: s' sound_def)
  have 2: "closing_inv s'" using op by (simp add: s' closing_inv_def)
  have 3: "wg_inv s'"
    by (rule wg_inv_upd[where s = s and k = k and w' = "AtSelect"])
       (use assms(1) f in \<open>simp_all add: s' sound_def\<close>)
  from soundI[OF send_safe[OF sound_safe[OF assms(1)] assms(2)] 1 2 3] show ?thesis .
qed

lemma close_results_sound:
  assumes "sound fn zero inputs s" "close_results s = Some s'"
  shows "sound fn zero inputs s'"
proof -
  from close_results_shape[OF assms(2)] have
    z: "wg s = 0" and s': "s' = s\<lparr>results_closed := True\<rparr>" by simp_all
  from assms(1) z have "sum_list (map alive (workers s)) = 0" by (simp add: sound_def wg_inv_def)
  from alive_none[OF this] have 2: "closing_inv s'" by (simp add: s' closing_inv_def)
  have 1: "\<not> panicked s'" "wg_inv s'" using assms(1) by (simp_all add: s' sound_def wg_inv_def)
  from soundI[OF close_results_safe[OF sound_safe[OF assms(1)] assms(2)] 1(1) 2 1(2)]
  show ?thesis .
qed

lemma collect_exit_sound:
  "sound fn zero inputs s \<Longrightarrow> collect_exit inputs s = Some s' \<Longrightarrow> sound fn zero inputs s'"
  by (drule collect_exit_shape) (simp add: sound_defs)

lemma collect_done_sound:
  "sound fn zero inputs s \<Longrightarrow> collect_done inputs s = Some s' \<Longrightarrow> sound fn zero inputs s'"
  by (drule collect_done_shape) (simp add: sound_defs)

lemma collect_recv_sound:
  assumes "sound fn zero inputs s" "collect_recv inputs s = Some s'"
  shows "sound fn zero inputs s'"
proof (cases "results s")
  case Nil
  with collect_recv_shape[OF assms(2)]
  have s': "s' = s\<lparr>outcome := Returned (Some (outputs s)) None\<rparr>" by simp
  show ?thesis using assms(1) by (simp add: s' sound_defs)
next
  case (Cons r rest)
  from collect_recv_shape_Cons[OF sound_safe[OF assms(1)] assms(2) Cons]
  have s': "s' = s\<lparr>results := rest, outputs := (outputs s)[fst r := snd r],
                    collected := Suc (collected s)\<rparr>" by simp
  have 1: "\<not> panicked s'" "closing_inv s'" "wg_inv s'"
    using assms(1) by (simp_all add: s' sound_def closing_inv_def wg_inv_def)
  from soundI[OF collect_recv_safe[OF sound_safe[OF assms(1)] assms(2)] 1] show ?thesis .
qed

lemma step_sound:
  "sound fn zero inputs s \<Longrightarrow> step fn inputs e s = Some s' \<Longrightarrow> sound fn zero inputs s'"
  by (cases e)
     (auto simp add: step_def split: if_splits
           intro: cancel_sound feed_sound feeder_done_sound close_tasks_sound worker_done_sound
                  worker_closed_sound work_sound send_sound close_results_sound
                  collect_exit_sound collect_done_sound collect_recv_sound)

lemma exec_sound:
  "sound fn zero inputs s \<Longrightarrow> exec fn inputs es s = Some s' \<Longrightarrow> sound fn zero inputs s'"
proof (induction es arbitrary: s)
  case Nil then show ?case by simp
next
  case (Cons e es)
  then show ?case by (auto split: option.splits dest: step_sound)
qed

lemma Run_init_sound:
  "0 \<le> numWorkers \<Longrightarrow> numWorkers < 2147483648 \<Longrightarrow>
   sound fn zero inputs (Run_init numWorkers zero done0 inputs)"
  by (simp add: Run_init_def sound_defs wg_add_first sum_list_replicate)

lemma Run_sound:
  "0 \<le> numWorkers \<Longrightarrow> numWorkers < 2147483648 \<Longrightarrow>
   Run numWorkers zero done0 inputs fn es = Some s \<Longrightarrow> sound fn zero inputs s"
  unfolding Run_def by (rule exec_sound[OF Run_init_sound])

lemma exec_append:
  "exec fn inputs (es @ es') s = (case exec fn inputs es s of None \<Rightarrow> None | Some s' \<Rightarrow> exec fn inputs es' s')"
  by (induction es arbitrary: s) (auto split: option.splits)

subsection \<open>Every event lowers the number of events still to come\<close>

lemma cancel_todo: "cancel s = Some s' \<Longrightarrow> todo inputs s' < todo inputs s"
  by (drule cancel_shape) (simp add: todo_def)

lemma feed_todo: "feed inputs k s = Some s' \<Longrightarrow> todo inputs s' < todo inputs s"
proof -
  assume "feed inputs k s = Some s'"
  from feed_shape[OF this] obtain i where
    f: "feeder s = Feeding i" "i < length inputs" "k < length (workers s)"
       "workers s ! k = AtSelect"
    and s': "s' = s\<lparr>feeder := Feeding (Suc i), sent := sent s @ [(i, inputs ! i)],
                     workers := (workers s)[k := Pulled i (inputs ! i)]\<rparr>"
    by blast
  from sum_list_map_upd[OF f(3), of worker_cost "Pulled i (inputs ! i)"] f
  show ?thesis by (simp add: s' todo_def)
qed

lemma feeder_done_todo: "feeder_done inputs s = Some s' \<Longrightarrow> todo inputs s' < todo inputs s"
  by (drule feeder_done_shape) (auto simp add: todo_def)

lemma close_tasks_todo: "close_tasks inputs s = Some s' \<Longrightarrow> todo inputs s' < todo inputs s"
  by (drule close_tasks_shape) (auto simp add: todo_def)

lemma worker_done_todo:
  "\<not> panicked s \<Longrightarrow> worker_done k s = Some s' \<Longrightarrow> todo inputs s' < todo inputs s"
proof -
  assume np: "\<not> panicked s" and "worker_done k s = Some s'"
  from worker_done_shape[OF this(2)] have
    f: "k < length (workers s)" "workers s ! k \<noteq> Gone"
    and s': "s' = s\<lparr>workers := (workers s)[k := Gone], wg := wg_add (wg s) (- 1),
                     panicked := (wg_add (wg s) (- 1) < 0)\<rparr>" by simp_all
  from f(2) have "0 < worker_cost (workers s ! k)" by (cases "workers s ! k") simp_all
  with sum_list_map_upd[OF f(1), of worker_cost Gone] np
  show ?thesis by (simp add: s' todo_def)
qed

lemma worker_closed_todo:
  "\<not> panicked s \<Longrightarrow> worker_closed k s = Some s' \<Longrightarrow> todo inputs s' < todo inputs s"
proof -
  assume np: "\<not> panicked s" and "worker_closed k s = Some s'"
  from worker_closed_shape[OF this(2)] have
    f: "k < length (workers s)" "workers s ! k = AtSelect"
    and s': "s' = s\<lparr>workers := (workers s)[k := Gone], wg := wg_add (wg s) (- 1),
                     panicked := (wg_add (wg s) (- 1) < 0)\<rparr>" by simp_all
  from sum_list_map_upd[OF f(1), of worker_cost Gone] f(2) np
  show ?thesis by (simp add: s' todo_def)
qed

lemma work_todo: "work fn k s = Some s' \<Longrightarrow> todo inputs s' < todo inputs s"
proof -
  assume "work fn k s = Some s'"
  from work_shape[OF this] obtain i x where
    f: "k < length (workers s)" "workers s ! k = Pulled i x"
    and s': "s' = s\<lparr>workers := (workers s)[k := AtSend i (fn x)]\<rparr>"
    by blast
  from sum_list_map_upd[OF f(1), of worker_cost "AtSend i (fn x)"] f(2)
  show ?thesis by (simp add: s' todo_def)
qed

lemma send_todo: "\<not> panicked s \<Longrightarrow> send inputs k s = Some s' \<Longrightarrow> todo inputs s' < todo inputs s"
proof -
  assume np: "\<not> panicked s" and "send inputs k s = Some s'"
  from send_shape[OF this(2)] obtain i y where
    f: "k < length (workers s)" "workers s ! k = AtSend i y"
    and c: "if results_closed s then s' = s\<lparr>panicked := True\<rparr>
          else length (results s) < length inputs \<and>
               s' = s\<lparr>results := results s @ [(i, y)], workers := (workers s)[k := AtSelect]\<rparr>"
    by blast
  show ?thesis
  proof (cases "results_closed s")
    case True
    with c np show ?thesis by (simp add: todo_def)
  next
    case False
    with c have s': "s' = s\<lparr>results := results s @ [(i, y)], workers := (workers s)[k := AtSelect]\<rparr>"
      by simp
    from sum_list_map_upd[OF f(1), of worker_cost AtSelect] f(2)
    show ?thesis by (simp add: s' todo_def)
  qed
qed

lemma close_results_todo: "close_results s = Some s' \<Longrightarrow> todo inputs s' < todo inputs s"
  by (drule close_results_shape) (simp add: todo_def)

lemma collect_exit_todo: "collect_exit inputs s = Some s' \<Longrightarrow> todo inputs s' < todo inputs s"
  by (drule collect_exit_shape) (simp add: todo_def)

lemma collect_done_todo: "collect_done inputs s = Some s' \<Longrightarrow> todo inputs s' < todo inputs s"
  by (drule collect_done_shape) (simp add: todo_def)

lemma collect_recv_todo:
  "\<not> panicked s \<Longrightarrow> collect_recv inputs s = Some s' \<Longrightarrow> todo inputs s' < todo inputs s"
  by (drule collect_recv_shape) (auto simp add: todo_def split: list.splits if_splits)

lemma step_todo: "step fn inputs e s = Some s' \<Longrightarrow> todo inputs s' < todo inputs s"
  by (cases e)
     (auto simp add: step_def split: if_splits
           intro: cancel_todo feed_todo feeder_done_todo close_tasks_todo worker_done_todo
                  worker_closed_todo work_todo send_todo close_results_todo
                  collect_exit_todo collect_done_todo collect_recv_todo)

lemma exec_todo:
  "exec fn inputs es s = Some s' \<Longrightarrow> length es + todo inputs s' \<le> todo inputs s"
proof (induction es arbitrary: s)
  case Nil then show ?case by simp
next
  case (Cons e es)
  from Cons.prems obtain s1 where 1: "step fn inputs e s = Some s1" "exec fn inputs es s1 = Some s'"
    by (auto split: option.splits)
  from Cons.IH[OF 1(2)] step_todo[OF 1(1)] show ?case by simp
qed

lemma todo_init:
  "todo inputs (Run_init numWorkers zero done0 inputs)
     \<le> 4 * length inputs + nat numWorkers + 5"
  by (simp add: todo_def Run_init_def sum_list_replicate)

subsection \<open>Run does not get stuck\<close>

lemma not_all_Gone:
  "\<not> (\<forall>w \<in> set ws. w = Gone) \<Longrightarrow> \<exists>k < length ws. ws ! k \<noteq> Gone"
  by (auto simp add: in_set_conv_nth)

lemma progress:
  assumes "sound fn zero inputs s" "outcome s = Running"
  shows "\<exists>e s'. e \<noteq> Cancel \<and> step fn inputs e s = Some s'"
proof -
  have np: "\<not> panicked s" using assms(1) by (simp add: sound_def)
  show ?thesis
  proof (cases "collected s < length inputs")
    case False
    with assms(2) np have "step fn inputs CollectExit s \<noteq> None"
      by (simp add: step_def collect_exit_def)
    then show ?thesis by blast
  next
    case less: True
    show ?thesis
    proof (cases "ctx_done s")
      case True
      with assms(2) np less have "step fn inputs CollectDone s \<noteq> None"
        by (simp add: step_def collect_done_def)
      then show ?thesis by blast
    next
      case nd: False
      show ?thesis
      proof (cases "results s = [] \<and> \<not> results_closed s")
        case False
        with assms(2) np less have "step fn inputs CollectRecv s \<noteq> None"
          by (auto simp add: step_def collect_recv_def split: list.splits)
        then show ?thesis by blast
      next
        case empty: True
        show ?thesis
        proof (cases "\<forall>w \<in> set (workers s). w = Gone")
          case True
          from alive_all_Gone[OF this] assms(1) have "wg s = 0"
            by (simp add: sound_def wg_inv_def)
          with empty np have "step fn inputs CloseResults s \<noteq> None"
            by (simp add: step_def close_results_def)
          then show ?thesis by blast
        next
          case False
          from not_all_Gone[OF this] obtain k where
            k: "k < length (workers s)" "workers s ! k \<noteq> Gone" by blast
          show ?thesis
          proof (cases "workers s ! k")
            case Gone with k show ?thesis by simp
          next
            case (Pulled i x)
            with k nd np have "step fn inputs (Work k) s \<noteq> None"
              by (simp add: step_def work_def)
            then show ?thesis by blast
          next
            case (AtSend i y)
            with k empty less np have "step fn inputs (Send k) s \<noteq> None"
              by (auto simp add: step_def send_def)
            then show ?thesis by blast
          next
            case AtSelect
            show ?thesis
            proof (cases "feeder s")
              case (Feeding i)
              show ?thesis
              proof (cases "i < length inputs")
                case True
                with Feeding AtSelect k np have "step fn inputs (Feed k) s \<noteq> None"
                  by (simp add: step_def feed_def)
                then show ?thesis by blast
              next
                case False
                with Feeding np have "step fn inputs CloseTasks s \<noteq> None"
                  by (simp add: step_def close_tasks_def)
                then show ?thesis by blast
              qed
            next
              case Closed
              with assms(1) have "0 < tasks_closes s" by (simp add: sound_def feeder_inv_def)
              with AtSelect k np have "step fn inputs (WorkerClosed k) s \<noteq> None"
                by (simp add: step_def worker_closed_def)
              then show ?thesis by blast
            next
              case (Stopped i)
              with assms(1) nd show ?thesis by (simp add: sound_def feeder_inv_def)
            qed
          qed
        qed
      qed
    qed
  qed
qed

lemma returns:
  "sound fn zero inputs s \<Longrightarrow>
   \<exists>more s'. Cancel \<notin> set more \<and> exec fn inputs more s = Some s' \<and> outcome s' \<noteq> Running"
proof (induction "todo inputs s" arbitrary: s rule: less_induct)
  case less
  show ?case
  proof (cases "outcome s = Running")
    case False
    then have "Cancel \<notin> set [] \<and> exec fn inputs [] s = Some s \<and> outcome s \<noteq> Running" by simp
    then show ?thesis by blast
  next
    case True
    from progress[OF less.prems True] obtain e s1 where
      e: "e \<noteq> Cancel" "step fn inputs e s = Some s1" by blast
    from less.hyps[OF step_todo[OF e(2)] step_sound[OF less.prems e(2)]] obtain more s' where
      m: "Cancel \<notin> set more" "exec fn inputs more s1 = Some s'" "outcome s' \<noteq> Running" by blast
    from e m have "Cancel \<notin> set (e # more) \<and> exec fn inputs (e # more) s = Some s' \<and>
       outcome s' \<noteq> Running" by simp
    then show ?thesis by blast
  qed
qed

subsection \<open>While the context is not done, no task is lost\<close>

lemma held_keep:
  "\<exists>w \<in> set ws. holds w = Some j \<Longrightarrow> k < length ws \<Longrightarrow> holds (ws ! k) \<noteq> Some j \<Longrightarrow>
   \<exists>w \<in> set (ws[k := w']). holds w = Some j"
proof -
  assume "\<exists>w \<in> set ws. holds w = Some j" and k: "k < length ws" and n: "holds (ws ! k) \<noteq> Some j"
  then obtain m where m: "m < length ws" "holds (ws ! m) = Some j"
    by (auto simp add: in_set_conv_nth)
  with n have "m \<noteq> k" by auto
  with m have "m < length (ws[k := w'])" "holds (ws[k := w'] ! m) = Some j" by simp_all
  then show ?thesis using nth_mem by blast
qed

lemma held_new:
  "k < length ws \<Longrightarrow> holds w' = Some j \<Longrightarrow> \<exists>w \<in> set (ws[k := w']). holds w = Some j"
  using set_update_memI[of k ws w'] by blast

lemma pending_keep:
  assumes "j \<in> pending s" "k < length (workers s)" "holds (workers s ! k) \<noteq> Some j"
    "workers s' = (workers s)[k := w']" "set (results s) \<subseteq> set (results s')"
  shows "j \<in> pending s'"
  using assms held_keep[of "workers s" j k w'] by (auto simp add: pending_def)

lemma pending_same:
  assumes "j \<in> pending s" "k < length (workers s)" "holds w' = holds (workers s ! k)"
    "workers s' = (workers s)[k := w']" "set (results s) \<subseteq> set (results s')"
  shows "j \<in> pending s'"
proof (cases "holds (workers s ! k) = Some j")
  case True
  with assms(2,3,4) held_new[of k "workers s" w' j] show ?thesis by (simp add: pending_def)
next
  case False
  from pending_keep[OF assms(1,2) False assms(4,5)] show ?thesis .
qed

lemma load_all_Gone: "\<forall>w \<in> set ws. w = Gone \<Longrightarrow> sum_list (map load ws) = 0"
  by (induction ws) auto

lemma Gone_upd: "Gone \<in> set (ws[k := w']) \<Longrightarrow> w' \<noteq> Gone \<Longrightarrow> Gone \<in> set ws"
  by (auto dest!: in_set_updD)

lemma feed_steady:
  assumes "steady fn inputs s" "feed inputs k s = Some s'"
  shows "steady fn inputs s'"
proof -
  from feed_shape[OF assms(2)] obtain i where
    f: "feeder s = Feeding i" "i < length inputs" "k < length (workers s)"
       "workers s ! k = AtSelect"
    and s': "s' = s\<lparr>feeder := Feeding (Suc i), sent := sent s @ [(i, inputs ! i)],
                     workers := (workers s)[k := Pulled i (inputs ! i)]\<rparr>"
    by blast
  have w': "workers s' = (workers s)[k := Pulled i (inputs ! i)]" "results s' = results s"
    "outputs s' = outputs s"
    by (simp_all add: s')
  have noGone: "Gone \<notin> set (workers s)" using assms(1) f(1) by (auto simp add: steady_def)
  have 1: "\<not> ctx_done s'" "workers s' \<noteq> []" "outcome s' \<noteq> Running \<longrightarrow> length inputs \<le> collected s'"
    using assms(1) by (simp_all add: s' steady_def)
  have 2: "collected s' + length (results s') + sum_list (map load (workers s'))
             = fed (length inputs) (feeder s')"
    using assms(1) f sum_list_map_upd[OF f(3), of load "Pulled i (inputs ! i)"]
    by (simp add: s' steady_def)
  have 3: "Gone \<in> set (workers s') \<longrightarrow> feeder s' = Closed"
    using noGone Gone_upd[of "workers s" k "Pulled i (inputs ! i)"] by (auto simp add: s')
  have 4: "\<forall>j < fed (length inputs) (feeder s'). j \<in> pending s' \<or> outputs s' ! j = fn (inputs ! j)"
  proof (intro allI impI)
    fix j assume "j < fed (length inputs) (feeder s')"
    then have j: "j < Suc i" by (simp add: s')
    show "j \<in> pending s' \<or> outputs s' ! j = fn (inputs ! j)"
    proof (cases "j = i")
      case True
      with held_new[of k "workers s" "Pulled i (inputs ! i)" i] f(3) w'(1)
      show ?thesis by (simp add: pending_def)
    next
      case False
      with j have "j < fed (length inputs) (feeder s)" using f(1) by simp
      with assms(1) have "j \<in> pending s \<or> outputs s ! j = fn (inputs ! j)"
        by (simp add: steady_def)
      then show ?thesis
      proof
        assume "j \<in> pending s"
        from pending_keep[OF this f(3) _ w'(1)] f(4) w'(2) show ?thesis by simp
      next
        assume "outputs s ! j = fn (inputs ! j)" then show ?thesis by (simp add: w')
      qed
    qed
  qed
  from 1 2 3 4 show ?thesis by (simp add: steady_def)
qed

lemma work_steady:
  assumes "steady fn inputs s" "work fn k s = Some s'"
  shows "steady fn inputs s'"
proof -
  from work_shape[OF assms(2)] obtain i x where
    f: "k < length (workers s)" "workers s ! k = Pulled i x"
    and s': "s' = s\<lparr>workers := (workers s)[k := AtSend i (fn x)]\<rparr>"
    by blast
  have w': "workers s' = (workers s)[k := AtSend i (fn x)]" "results s' = results s"
    "outputs s' = outputs s" "feeder s' = feeder s"
    by (simp_all add: s')
  have 1: "\<not> ctx_done s'" "workers s' \<noteq> []" "outcome s' \<noteq> Running \<longrightarrow> length inputs \<le> collected s'"
    using assms(1) by (simp_all add: s' steady_def)
  have 2: "collected s' + length (results s') + sum_list (map load (workers s'))
             = fed (length inputs) (feeder s')"
    using assms(1) f sum_list_map_upd[OF f(1), of load "AtSend i (fn x)"]
    by (simp add: s' steady_def)
  have 3: "Gone \<in> set (workers s') \<longrightarrow> feeder s' = Closed"
    using assms(1) Gone_upd[of "workers s" k "AtSend i (fn x)"] by (auto simp add: s' steady_def)
  have 4: "\<forall>j < fed (length inputs) (feeder s'). j \<in> pending s' \<or> outputs s' ! j = fn (inputs ! j)"
  proof (intro allI impI)
    fix j assume "j < fed (length inputs) (feeder s')"
    with assms(1) have "j \<in> pending s \<or> outputs s ! j = fn (inputs ! j)"
      by (simp add: steady_def w')
    then show "j \<in> pending s' \<or> outputs s' ! j = fn (inputs ! j)"
    proof
      assume "j \<in> pending s"
      from pending_same[OF this f(1) _ w'(1)] f(2) w'(2) show ?thesis by simp
    next
      assume "outputs s ! j = fn (inputs ! j)" then show ?thesis by (simp add: w')
    qed
  qed
  from 1 2 3 4 show ?thesis by (simp add: steady_def)
qed

lemma send_steady:
  assumes "steady fn inputs s" "sound fn zero inputs s" "send inputs k s = Some s'"
  shows "steady fn inputs s'"
proof -
  from send_shape[OF assms(3)] obtain i y where
    f: "k < length (workers s)" "workers s ! k = AtSend i y"
    and c: "if results_closed s then s' = s\<lparr>panicked := True\<rparr>
          else length (results s) < length inputs \<and>
               s' = s\<lparr>results := results s @ [(i, y)], workers := (workers s)[k := AtSelect]\<rparr>"
    by blast
  have op: "\<not> results_closed s" using sound_open[OF assms(2) f(1)] f(2) by simp
  with c have s': "s' = s\<lparr>results := results s @ [(i, y)], workers := (workers s)[k := AtSelect]\<rparr>"
    by simp
  have w': "workers s' = (workers s)[k := AtSelect]" "results s' = results s @ [(i, y)]"
    "outputs s' = outputs s" "feeder s' = feeder s"
    by (simp_all add: s')
  have 1: "\<not> ctx_done s'" "workers s' \<noteq> []" "outcome s' \<noteq> Running \<longrightarrow> length inputs \<le> collected s'"
    using assms(1) by (simp_all add: s' steady_def)
  have 2: "collected s' + length (results s') + sum_list (map load (workers s'))
             = fed (length inputs) (feeder s')"
    using assms(1) f sum_list_map_upd[OF f(1), of load AtSelect]
    by (simp add: s' steady_def)
  have 3: "Gone \<in> set (workers s') \<longrightarrow> feeder s' = Closed"
    using assms(1) Gone_upd[of "workers s" k AtSelect] by (auto simp add: s' steady_def)
  have 4: "\<forall>j < fed (length inputs) (feeder s'). j \<in> pending s' \<or> outputs s' ! j = fn (inputs ! j)"
  proof (intro allI impI)
    fix j assume "j < fed (length inputs) (feeder s')"
    with assms(1) have "j \<in> pending s \<or> outputs s ! j = fn (inputs ! j)"
      by (simp add: steady_def w')
    then show "j \<in> pending s' \<or> outputs s' ! j = fn (inputs ! j)"
    proof
      assume p: "j \<in> pending s"
      show ?thesis
      proof (cases "j = i")
        case True then show ?thesis by (simp add: pending_def w'(2))
      next
        case False
        with f(2) have nh: "holds (workers s ! k) \<noteq> Some j" by simp
        have sub: "set (results s) \<subseteq> set (results s')" by (auto simp add: w'(2))
        from pending_keep[OF p f(1) nh w'(1) sub] show ?thesis by simp
      qed
    next
      assume "outputs s ! j = fn (inputs ! j)" then show ?thesis by (simp add: w')
    qed
  qed
  from 1 2 3 4 show ?thesis by (simp add: steady_def)
qed

lemma worker_closed_steady:
  assumes "steady fn inputs s" "sound fn zero inputs s" "worker_closed k s = Some s'"
  shows "steady fn inputs s'"
proof -
  from worker_closed_shape[OF assms(3)] have
    f: "k < length (workers s)" "workers s ! k = AtSelect" "0 < tasks_closes s"
    and s': "s' = s\<lparr>workers := (workers s)[k := Gone], wg := wg_add (wg s) (- 1),
                     panicked := (wg_add (wg s) (- 1) < 0)\<rparr>" by simp_all
  have cl: "feeder s = Closed" using assms(2) f(3) by (auto simp add: sound_def feeder_inv_def split: if_splits)
  have w': "workers s' = (workers s)[k := Gone]" "results s' = results s"
    "outputs s' = outputs s" "feeder s' = feeder s"
    by (simp_all add: s')
  have 1: "\<not> ctx_done s'" "workers s' \<noteq> []" "outcome s' \<noteq> Running \<longrightarrow> length inputs \<le> collected s'"
    using assms(1) by (simp_all add: s' steady_def)
  have 2: "collected s' + length (results s') + sum_list (map load (workers s'))
             = fed (length inputs) (feeder s')"
    using assms(1) f sum_list_map_upd[OF f(1), of load Gone]
    by (simp add: s' steady_def)
  have 3: "Gone \<in> set (workers s') \<longrightarrow> feeder s' = Closed"
    using cl by (simp add: s')
  have 4: "\<forall>j < fed (length inputs) (feeder s'). j \<in> pending s' \<or> outputs s' ! j = fn (inputs ! j)"
  proof (intro allI impI)
    fix j assume "j < fed (length inputs) (feeder s')"
    with assms(1) have "j \<in> pending s \<or> outputs s ! j = fn (inputs ! j)"
      by (simp add: steady_def w')
    then show "j \<in> pending s' \<or> outputs s' ! j = fn (inputs ! j)"
    proof
      assume "j \<in> pending s"
      from pending_same[OF this f(1) _ w'(1)] f(2) w'(2) show ?thesis by simp
    next
      assume "outputs s ! j = fn (inputs ! j)" then show ?thesis by (simp add: w')
    qed
  qed
  from 1 2 3 4 show ?thesis by (simp add: steady_def)
qed

lemma close_tasks_steady:
  assumes "steady fn inputs s" "sound fn zero inputs s" "close_tasks inputs s = Some s'"
  shows "steady fn inputs s'"
proof -
  from close_tasks_shape[OF assms(3)] obtain i where
    f: "feeder s = Feeding i" "length inputs \<le> i"
    and s': "s' = s\<lparr>feeder := Closed, tasks_closes := Suc (tasks_closes s)\<rparr>" by blast
  have "i \<le> length inputs" using assms(2) f(1) by (simp add: sound_def feeder_inv_def)
  with f(2) have i: "i = length inputs" by simp
  show ?thesis using assms(1) f(1) i by (simp add: s' steady_def pending_def)
qed

lemma close_results_steady:
  "steady fn inputs s \<Longrightarrow> close_results s = Some s' \<Longrightarrow> steady fn inputs s'"
  by (drule close_results_shape) (simp add: steady_def pending_def)

lemma collect_exit_steady:
  "steady fn inputs s \<Longrightarrow> collect_exit inputs s = Some s' \<Longrightarrow> steady fn inputs s'"
  by (drule collect_exit_shape) (simp add: steady_def pending_def)

lemma collect_recv_steady:
  assumes "steady fn inputs s" "sound fn zero inputs s" "collect_recv inputs s = Some s'"
  shows "steady fn inputs s'"
proof (cases "results s")
  case Nil
  with collect_recv_shape[OF assms(3)]
  have c: "results_closed s" "collected s < length inputs" by simp_all
  with assms(2) have g: "\<forall>w \<in> set (workers s). w = Gone" by (simp add: sound_def closing_inv_def)
  moreover from assms(1) have "workers s \<noteq> []" by (simp add: steady_def)
  ultimately have "Gone \<in> set (workers s)" by (cases "workers s") auto
  with assms(1) have "feeder s = Closed" by (simp add: steady_def)
  with assms(1) Nil load_all_Gone[OF g] have "collected s = length inputs"
    by (simp add: steady_def)
  with c show ?thesis by simp
next
  case (Cons r rest)
  have r: "fst r < length inputs" "snd r = fn (inputs ! fst r)"
    using assms(2) Cons by (simp_all add: sound_def items_inv_def)
  have len: "length (outputs s) = length inputs"
    using assms(2) by (simp add: sound_def outputs_inv_def)
  from collect_recv_shape[OF assms(3)] Cons r(1) len
  have run: "outcome s = Running"
    and s': "s' = s\<lparr>results := rest, outputs := (outputs s)[fst r := snd r],
                    collected := Suc (collected s)\<rparr>" by simp_all
  have w': "workers s' = workers s" "results s' = rest"
    "outputs s' = (outputs s)[fst r := snd r]" "feeder s' = feeder s"
    by (simp_all add: s')
  have 1: "\<not> ctx_done s'" "workers s' \<noteq> []" "outcome s' \<noteq> Running \<longrightarrow> length inputs \<le> collected s'"
    "Gone \<in> set (workers s') \<longrightarrow> feeder s' = Closed"
    using assms(1) run by (simp_all add: s' steady_def)
  have 2: "collected s' + length (results s') + sum_list (map load (workers s'))
             = fed (length inputs) (feeder s')"
    using assms(1) Cons by (simp add: s' steady_def)
  have 4: "\<forall>j < fed (length inputs) (feeder s'). j \<in> pending s' \<or> outputs s' ! j = fn (inputs ! j)"
  proof (intro allI impI)
    fix j assume "j < fed (length inputs) (feeder s')"
    with assms(1) have old: "j \<in> pending s \<or> outputs s ! j = fn (inputs ! j)"
      by (simp add: steady_def w')
    show "j \<in> pending s' \<or> outputs s' ! j = fn (inputs ! j)"
    proof (cases "j = fst r")
      case True
      with r len show ?thesis by (simp add: w')
    next
      case False
      from old show ?thesis
      proof
        assume "j \<in> pending s"
        with False Cons show ?thesis by (auto simp add: pending_def w')
      next
        assume "outputs s ! j = fn (inputs ! j)"
        with False show ?thesis by (simp add: w')
      qed
    qed
  qed
  from 1 2 4 show ?thesis by (simp add: steady_def)
qed

lemma step_steady:
  assumes "steady fn inputs s" "sound fn zero inputs s" "step fn inputs e s = Some s'" "e \<noteq> Cancel"
  shows "steady fn inputs s'"
proof -
  have nd: "\<not> ctx_done s" using assms(1) by (simp add: steady_def)
  from assms(3) have np: "\<not> panicked s" by (simp add: step_def split: if_splits)
  show ?thesis
  proof (cases e)
    case Cancel with assms(4) show ?thesis by simp
  next
    case (Feed k) with assms np show ?thesis by (simp add: step_def feed_steady)
  next
    case FeederDone
    with assms(3) np nd feeder_done_shape[of inputs s s'] show ?thesis by (auto simp add: step_def)
  next
    case CloseTasks with assms np show ?thesis by (simp add: step_def close_tasks_steady)
  next
    case (WorkerDone k)
    with assms(3) np nd worker_done_shape[of k s s'] show ?thesis by (auto simp add: step_def)
  next
    case (WorkerClosed k) with assms np show ?thesis by (simp add: step_def worker_closed_steady)
  next
    case (Work k) with assms np show ?thesis by (simp add: step_def work_steady)
  next
    case (Send k) with assms np show ?thesis by (simp add: step_def send_steady)
  next
    case CloseResults with assms np show ?thesis by (simp add: step_def close_results_steady)
  next
    case CollectExit with assms np show ?thesis by (simp add: step_def collect_exit_steady)
  next
    case CollectDone
    with assms(3) np nd collect_done_shape[of inputs s s'] show ?thesis by (auto simp add: step_def)
  next
    case CollectRecv with assms np show ?thesis by (simp add: step_def collect_recv_steady)
  qed
qed

lemma exec_steady:
  "steady fn inputs s \<Longrightarrow> sound fn zero inputs s \<Longrightarrow> Cancel \<notin> set es \<Longrightarrow>
   exec fn inputs es s = Some s' \<Longrightarrow> steady fn inputs s'"
proof (induction es arbitrary: s)
  case Nil then show ?case by simp
next
  case (Cons e es)
  from Cons.prems(4) obtain s1 where 1: "step fn inputs e s = Some s1" "exec fn inputs es s1 = Some s'"
    by (auto split: option.splits)
  from Cons.prems(3) have e: "e \<noteq> Cancel" "Cancel \<notin> set es" by auto
  from Cons.IH[OF step_steady[OF Cons.prems(1,2) 1(1) e(1)] step_sound[OF Cons.prems(2) 1(1)] e(2) 1(2)]
  show ?case .
qed

lemma Run_init_steady:
  "1 \<le> numWorkers \<Longrightarrow> numWorkers < 2147483648 \<Longrightarrow>
   steady fn inputs (Run_init numWorkers zero False inputs)"
  by (auto simp add: Run_init_def steady_def pending_def wg_add_first)

lemma steady_returned:
  assumes "steady fn inputs s" "sound fn zero inputs s" "outcome s = Returned out err"
  shows "out = Some (map fn inputs) \<and> err = None"
proof -
  let ?n = "length inputs"
  from assms(1,3) have c: "?n \<le> collected s" by (simp add: steady_def)
  from assms(2) have le: "fed ?n (feeder s) \<le> ?n" "length (outputs s) = ?n"
    by (simp_all add: sound_def feeder_inv_def outputs_inv_def)
  from assms(1) have sum: "collected s + length (results s) + sum_list (map load (workers s))
       = fed ?n (feeder s)" by (simp add: steady_def)
  with c le have "fed ?n (feeder s) = ?n \<and> length (results s) = 0 \<and>
      sum_list (map load (workers s)) = 0"
    by linarith
  then have z: "fed ?n (feeder s) = ?n" "results s = []" "sum_list (map load (workers s)) = 0"
    by simp_all
  have nohold: "holds w = None" if "w \<in> set (workers s)" for w
  proof -
    from z(3) that have "load w = 0" by (simp add: sum_list_eq_0_iff)
    then show ?thesis by (cases w) simp_all
  qed
  have "pending s = {}" using z(2) nohold by (auto simp add: pending_def)
  with assms(1) z(1) have all: "\<forall>j < ?n. outputs s ! j = fn (inputs ! j)"
    by (simp add: steady_def)
  have eq: "outputs s = map fn inputs"
    using le(2) all by (intro nth_equalityI) simp_all
  from assms(1) have "\<not> ctx_done s" by (simp add: steady_def)
  with assms(2,3) eq show ?thesis
    by (cases out) (auto simp add: sound_def outcome_inv_def)
qed

subsection \<open>The buffer of results is never full when a worker sends\<close>

lemma step_room:
  assumes "safe fn zero inputs s" "room inputs s" "step fn inputs e s = Some s'"
  shows "room inputs s'"
proof -
  from assms(3) have np: "\<not> panicked s" by (simp add: step_def split: if_splits)
  show ?thesis
  proof (cases e)
    case Cancel
    with assms(3) np have "cancel s = Some s'" by (simp add: step_def)
    from cancel_shape[OF this] assms(2) show ?thesis by (simp add: room_def)
  next
    case (Feed k)
    with assms(3) np have "feed inputs k s = Some s'" by (simp add: step_def)
    from feed_shape[OF this] obtain i where
      f: "feeder s = Feeding i" "k < length (workers s)" "workers s ! k = AtSelect"
      and s': "s' = s\<lparr>feeder := Feeding (Suc i), sent := sent s @ [(i, inputs ! i)],
                       workers := (workers s)[k := Pulled i (inputs ! i)]\<rparr>"
      by blast
    from sum_list_map_upd[OF f(2), of load "Pulled i (inputs ! i)"] f assms(2)
    show ?thesis by (simp add: s' room_def)
  next
    case FeederDone
    with assms(3) np have "feeder_done inputs s = Some s'" by (simp add: step_def)
    from feeder_done_shape[OF this] assms(2) show ?thesis by (auto simp add: room_def)
  next
    case CloseTasks
    with assms(3) np have "close_tasks inputs s = Some s'" by (simp add: step_def)
    from close_tasks_shape[OF this] obtain i where
      f: "feeder s = Feeding i" "length inputs \<le> i"
      and s': "s' = s\<lparr>feeder := Closed, tasks_closes := Suc (tasks_closes s)\<rparr>" by blast
    have "i \<le> length inputs" using assms(1) f(1) by (simp add: safe_def feeder_inv_def)
    with f assms(2) show ?thesis by (simp add: s' room_def)
  next
    case (WorkerDone k)
    with assms(3) np have "worker_done k s = Some s'" by (simp add: step_def)
    from worker_done_shape[OF this] have
      f: "k < length (workers s)"
      and s': "s' = s\<lparr>workers := (workers s)[k := Gone], wg := wg_add (wg s) (- 1),
                     panicked := (wg_add (wg s) (- 1) < 0)\<rparr>" by simp_all
    from sum_list_map_upd[OF f, of load Gone] assms(2)
    show ?thesis by (simp add: s' room_def)
  next
    case (WorkerClosed k)
    with assms(3) np have "worker_closed k s = Some s'" by (simp add: step_def)
    from worker_closed_shape[OF this] have
      f: "k < length (workers s)"
      and s': "s' = s\<lparr>workers := (workers s)[k := Gone], wg := wg_add (wg s) (- 1),
                     panicked := (wg_add (wg s) (- 1) < 0)\<rparr>" by simp_all
    from sum_list_map_upd[OF f, of load Gone] assms(2)
    show ?thesis by (simp add: s' room_def)
  next
    case (Work k)
    with assms(3) np have "work fn k s = Some s'" by (simp add: step_def)
    from work_shape[OF this] obtain i x where
      f: "k < length (workers s)" "workers s ! k = Pulled i x"
      and s': "s' = s\<lparr>workers := (workers s)[k := AtSend i (fn x)]\<rparr>"
      by blast
    from sum_list_map_upd[OF f(1), of load "AtSend i (fn x)"] f(2) assms(2)
    show ?thesis by (simp add: s' room_def)
  next
    case (Send k)
    with assms(3) np have "send inputs k s = Some s'" by (simp add: step_def)
    from send_shape[OF this] obtain i y where
      f: "k < length (workers s)" "workers s ! k = AtSend i y"
      and c: "if results_closed s then s' = s\<lparr>panicked := True\<rparr>
            else length (results s) < length inputs \<and>
                 s' = s\<lparr>results := results s @ [(i, y)], workers := (workers s)[k := AtSelect]\<rparr>"
      by blast
    show ?thesis
    proof (cases "results_closed s")
      case True
      with c assms(2) show ?thesis by (simp add: room_def)
    next
      case False
      with c have s': "s' = s\<lparr>results := results s @ [(i, y)],
                               workers := (workers s)[k := AtSelect]\<rparr>" by simp
      from sum_list_map_upd[OF f(1), of load AtSelect] f(2) assms(2)
      show ?thesis by (simp add: s' room_def)
    qed
  next
    case CloseResults
    with assms(3) np have "close_results s = Some s'" by (simp add: step_def)
    from close_results_shape[OF this] assms(2) show ?thesis by (simp add: room_def)
  next
    case CollectExit
    with assms(3) np have "collect_exit inputs s = Some s'" by (simp add: step_def)
    from collect_exit_shape[OF this] assms(2) show ?thesis by (simp add: room_def)
  next
    case CollectDone
    with assms(3) np have "collect_done inputs s = Some s'" by (simp add: step_def)
    from collect_done_shape[OF this] assms(2) show ?thesis by (simp add: room_def)
  next
    case CollectRecv
    with assms(3) np have "collect_recv inputs s = Some s'" by (simp add: step_def)
    from collect_recv_shape[OF this] assms(2) show ?thesis
      by (cases "results s") (auto simp add: room_def split: if_splits)
  qed
qed

lemma exec_room:
  "safe fn zero inputs s \<Longrightarrow> room inputs s \<Longrightarrow> exec fn inputs es s = Some s' \<Longrightarrow>
   room inputs s'"
proof (induction es arbitrary: s)
  case Nil then show ?case by simp
next
  case (Cons e es)
  from Cons.prems(3) obtain s1 where 1: "step fn inputs e s = Some s1" "exec fn inputs es s1 = Some s'"
    by (auto split: option.splits)
  from Cons.IH[OF step_safe[OF Cons.prems(1) 1(1)] step_room[OF Cons.prems(1,2) 1(1)] 1(2)]
  show ?case .
qed

text \<open>So the capacity \<open>len(inputs)\<close> of \<open>results\<close> never makes a send wait, whatever the
  interleaving and whether the context is cancelled or not.\<close>

lemma send_has_room:
  assumes "Run numWorkers zero done0 inputs fn schedule = Some s"
    "k < length (workers s)" "workers s ! k = AtSend i y"
  shows "length (results s) < length inputs"
proof -
  let ?init = "Run_init numWorkers zero done0 inputs :: ('a, 'b) pool"
  have r0: "room inputs ?init" by (simp add: room_def Run_init_def sum_list_replicate)
  from assms(1) have ex: "exec fn inputs schedule ?init = Some s" by (simp add: Run_def)
  have r: "room inputs s" using exec_room[OF Run_init_safe r0 ex] .
  have so: "safe fn zero inputs s" using Run_safe[OF assms(1)] .
  from sum_list_map_upd[OF assms(2), of load Gone] assms(3)
  have "1 \<le> sum_list (map load (workers s))" by simp
  moreover from so have "fed (length inputs) (feeder s) \<le> length inputs"
    by (simp add: safe_def feeder_inv_def)
  ultimately show ?thesis using r by (simp add: room_def)
qed

text \<open>A worker count whose low 32 bits read as a negative number makes \<open>wg.Add\<close> panic:
  nothing else happens.\<close>

lemma Run_panicking_start:
  assumes "wg_add 0 numWorkers < 0" "Run numWorkers zero done0 inputs fn schedule = Some s"
  shows "schedule = [] \<and> panicked s \<and> outcome s = Running"
proof (cases schedule)
  case Nil
  with assms show ?thesis by (auto simp add: Run_def Run_init_def)
next
  case (Cons e es)
  with assms show ?thesis by (simp add: Run_def Run_init_def step_def)
qed

subsection \<open>The claims about Run\<close>

text \<open>
  Claim C1, as stated, for every worker count from 1 on: it fails at \<open>2^31\<close> workers.
  \<open>wg.Add(2147483648)\<close> leaves the 32-bit counter of the wait group at \<open>-2^31\<close> and
  panics (pool.go, line 64): on the inputs \<open>[1,2,3,4]\<close> with \<open>fn(x) = x*x\<close> and a context
  that is not done, \<open>Run\<close> has panicked before any goroutine is started and has returned
  nothing, and no event can follow. Above that the counter no longer counts the workers:
  \<open>wg.Add(4294967296)\<close> leaves it at 0, so \<open>wg.Wait()\<close> returns at once, \<open>results\<close>
  is closed while the \<open>2^32\<close> workers wait for tasks, and \<open>Run\<close> returns
  \<open>[0,0,0,0]\<close>.
\<close>

theorem Run_wait_group_counterexample:
  "map_option (\<lambda>s. (panicked s, outcome s, workers s, wg s))
     (Run 2147483648 (0::int) False [1, 2, 3, 4 :: int] square [])
     = Some (True, Running, [], - 2147483648) \<and>
   list_all (\<lambda>e. Run 2147483648 (0::int) False [1, 2, 3, 4 :: int] square [e] = None)
     [Cancel, Feed 0, FeederDone, CloseTasks, WorkerDone 0, WorkerClosed 0, Work 0, Send 0,
      CloseResults, CollectExit, CollectDone, CollectRecv] \<and>
   map_option outcome
     (Run 4294967296 (0::int) False [1, 2, 3, 4 :: int] square [CloseResults, CollectRecv])
     = Some (Returned (Some [0, 0, 0, 0]) None)"
proof (intro conjI)
  show "map_option (\<lambda>s. (panicked s, outcome s, workers s, wg s))
     (Run 2147483648 (0::int) False [1, 2, 3, 4 :: int] square [])
     = Some (True, Running, [], - 2147483648)"
    by code_simp
  show "list_all (\<lambda>e. Run 2147483648 (0::int) False [1, 2, 3, 4 :: int] square [e] = None)
     [Cancel, Feed 0, FeederDone, CloseTasks, WorkerDone 0, WorkerClosed 0, Work 0, Send 0,
      CloseResults, CollectExit, CollectDone, CollectRecv]"
    by code_simp
  show "map_option outcome
     (Run 4294967296 (0::int) False [1, 2, 3, 4 :: int] square [CloseResults, CollectRecv])
     = Some (Returned (Some [0, 0, 0, 0]) None)"
    by (simp add: Run_def Run_init_def step_def close_results_def collect_recv_def
                  wg_add_def int32_def)
qed

text \<open>
  Claim C1, for the worker counts the wait group can count. Let \<open>Run\<close> be called with at
  least one and at most \<open>2^31 - 1\<close> workers and a context that is not done and is not
  cancelled during the call. Then, under every interleaving of the goroutines: if \<open>Run\<close>
  has returned, it has returned the slice \<open>map fn inputs\<close> (so element \<open>i\<close> is \<open>fn\<close> of
  \<open>inputs[i]\<close> and the length is that of the inputs) and a nil error; nothing has
  panicked; the interleaving has at most \<open>4 * len(inputs) + NumWorkers + 5\<close> events; and
  it can always be continued to a state in which \<open>Run\<close> has returned, so \<open>Run\<close> returns.
  The worker count does not appear in the result.
\<close>

theorem Run_ordered_results:
  assumes "1 \<le> numWorkers" "numWorkers < 2147483648" "Cancel \<notin> set schedule"
    "Run numWorkers zero False inputs fn schedule = Some s"
  shows "(\<forall>out err. outcome s = Returned out err \<longrightarrow> out = Some (map fn inputs) \<and> err = None) \<and>
         \<not> panicked s \<and>
         length schedule \<le> 4 * length inputs + nat numWorkers + 5 \<and>
         (\<exists>more s'. Cancel \<notin> set more \<and>
             Run numWorkers zero False inputs fn (schedule @ more) = Some s' \<and>
             outcome s' = Returned (Some (map fn inputs)) None)"
proof -
  let ?init = "Run_init numWorkers zero False inputs :: ('a, 'b) pool"
  from assms(1) have w: "0 \<le> numWorkers" by simp
  from assms(4) have ex: "exec fn inputs schedule ?init = Some s" by (simp add: Run_def)
  have so: "sound fn zero inputs s" using Run_sound[OF w assms(2,4)] .
  have st: "steady fn inputs s"
    using exec_steady[OF Run_init_steady[OF assms(1,2)] Run_init_sound[OF w assms(2)] assms(3) ex] .
  have 1: "\<forall>out err. outcome s = Returned out err \<longrightarrow> out = Some (map fn inputs) \<and> err = None"
    using steady_returned[OF st so] by blast
  have 2: "\<not> panicked s" using so by (simp add: sound_def)
  have 3: "length schedule \<le> 4 * length inputs + nat numWorkers + 5"
    using exec_todo[OF ex] todo_init[of inputs numWorkers zero False] by linarith
  from returns[OF so] obtain more s' where
    m: "Cancel \<notin> set more" "exec fn inputs more s = Some s'" "outcome s' \<noteq> Running" by blast
  have run': "Run numWorkers zero False inputs fn (schedule @ more) = Some s'"
    using ex m(2) by (simp add: Run_def exec_append)
  have "steady fn inputs s'" using exec_steady[OF st so m(1,2)] .
  moreover have "sound fn zero inputs s'" using exec_sound[OF so m(2)] .
  ultimately have "outcome s' = Returned (Some (map fn inputs)) None"
    using steady_returned[of fn inputs s' zero] m(3) by (cases "outcome s'") auto
  with m(1) run' have 4: "\<exists>more s'. Cancel \<notin> set more \<and>
             Run numWorkers zero False inputs fn (schedule @ more) = Some s' \<and>
             outcome s' = Returned (Some (map fn inputs)) None" by blast
  from 1 2 3 4 show ?thesis by blast
qed

text \<open>The scenario \<open>inputs = [1,2,3,4]\<close>, \<open>fn(x) = x*x\<close>, two workers, under an
  interleaving in which the workers overtake each other: \<open>Run\<close> returns \<open>[1,4,9,16]\<close>
  and a nil error.\<close>

theorem Run_ordered_results_witness:
  "\<exists>s. Run 2 (0::int) False [1, 2, 3, 4 :: int] square
          [Feed 0, Feed 1, Work 0, Work 1, Send 1, Send 0, Feed 1, Work 1, Send 1, Feed 0,
           Work 0, Send 0, CollectRecv, CollectRecv, CollectRecv, CollectRecv, CollectExit]
        = Some s \<and>
       outcome s = Returned (Some [1, 4, 9, 16]) None \<and> \<not> panicked s"
proof -
  let ?sched = "[Feed 0, Feed 1, Work 0, Work 1, Send 1, Send 0, Feed 1, Work 1, Send 1, Feed 0,
           Work 0, Send 0, CollectRecv, CollectRecv, CollectRecv, CollectRecv, CollectExit]"
  have run: "Run 2 (0::int) False [1, 2, 3, 4 :: int] square ?sched =
      Some \<lparr>ctx_done = False, feeder = Feeding 4, tasks_closes = 0,
             sent = [(0, 1), (1, 2), (2, 3), (3, 4)],
             workers = [AtSelect, AtSelect], wg = 2, results = [], results_closed = False,
             outputs = [1, 4, 9, 16], collected = 4,
             outcome = Returned (Some [1, 4, 9, 16]) None, panicked = False\<rparr>"
    by code_simp
  have nc: "Cancel \<notin> set ?sched" by simp
  have b: "(2 :: int) < 2147483648" by simp
  from Run_ordered_results[OF _ b nc run] run show ?thesis by simp
qed

text \<open>Without a worker nothing panics: the only events are those of the feeder, the
  closing goroutine and the collector, and the cancellation.\<close>

lemma step_no_workers:
  assumes "safe fn zero inputs s" "workers s = []" "step fn inputs e s = Some s'"
  shows "workers s' = [] \<and> \<not> panicked s'"
proof -
  from assms(3) have np: "\<not> panicked s" by (simp add: step_def split: if_splits)
  show ?thesis
  proof (cases "e = CollectRecv")
    case True
    with assms(3) np have cr: "collect_recv inputs s = Some s'" by (simp add: step_def)
    show ?thesis
    proof (cases "results s")
      case Nil
      with collect_recv_shape[OF cr] assms(2) np show ?thesis by simp
    next
      case (Cons r rest)
      from collect_recv_shape_Cons[OF assms(1) cr Cons] assms(2) np show ?thesis by simp
    qed
  next
    case False
    with assms(2,3) np show ?thesis
      by (cases e)
         (auto simp add: step_def
               dest!: cancel_shape feed_shape feeder_done_shape close_tasks_shape
                      worker_done_shape worker_closed_shape work_shape send_shape
                      close_results_shape collect_exit_shape collect_done_shape)
  qed
qed

lemma exec_no_workers:
  "safe fn zero inputs s \<Longrightarrow> workers s = [] \<Longrightarrow> \<not> panicked s \<Longrightarrow>
   exec fn inputs es s = Some s' \<Longrightarrow> workers s' = [] \<and> \<not> panicked s'"
proof (induction es arbitrary: s)
  case Nil then show ?case by simp
next
  case (Cons e es)
  from Cons.prems(4) obtain s1 where 1: "step fn inputs e s = Some s1" "exec fn inputs es s1 = Some s'"
    by (auto split: option.splits)
  from step_no_workers[OF Cons.prems(1,2) 1(1)] have 2: "workers s1 = []" "\<not> panicked s1"
    by simp_all
  from Cons.IH[OF step_safe[OF Cons.prems(1) 1(1)] 2 1(2)] show ?case .
qed

text \<open>
  Claim C4, as stated, for every worker count: it fails at \<open>2^31\<close> workers, where
  \<open>wg.Add\<close> panics (pool.go, line 64). On the empty input list \<open>Run\<close> has panicked before
  the collector is reached and has returned nothing; the collector's step cannot follow.
  Above that the counter no longer counts the workers: \<open>wg.Add(4294967296)\<close> leaves it
  at 0, and with a context that is done the first worker that returns makes \<open>wg.Done()\<close>
  panic, which can happen before the collector returns.
\<close>

theorem Run_empty_inputs_counterexample:
  "map_option (\<lambda>s. (panicked s, outcome s))
     (Run 2147483648 (0::int) False ([] :: int list) square []) = Some (True, Running) \<and>
   Run 2147483648 (0::int) False ([] :: int list) square [CollectExit] = None \<and>
   map_option (\<lambda>s. (panicked s, outcome s))
     (Run 4294967296 (0::int) True ([] :: int list) square [WorkerDone 0])
     = Some (True, Running)"
proof (intro conjI)
  show "map_option (\<lambda>s. (panicked s, outcome s))
     (Run 2147483648 (0::int) False ([] :: int list) square []) = Some (True, Running)"
    by code_simp
  show "Run 2147483648 (0::int) False ([] :: int list) square [CollectExit] = None"
    by code_simp
  show "map_option (\<lambda>s. (panicked s, outcome s))
     (Run 4294967296 (0::int) True ([] :: int list) square [WorkerDone 0])
     = Some (True, Running)"
    by (simp add: Run_def Run_init_def step_def worker_done_def wg_add_def int32_def)
qed

text \<open>
  Claim C4, for the worker counts below \<open>2^31\<close> with which \<open>wg.Add\<close> does not panic: the
  counts from 0 to \<open>2^31 - 1\<close>, and the negative counts whose low 32 bits read as a
  non-negative number, for which no worker is started. Let \<open>Run\<close> be called with such a
  count and an empty input list, the context done or not, cancelled during the call or
  not. The collector's first step returns the empty slice and a nil error; under every
  interleaving, if \<open>Run\<close> has returned it has returned just that, nothing has panicked, no
  task was handed to a worker and no worker called \<open>fn\<close> or sent a result; and every
  interleaving can be continued to a state in which \<open>Run\<close> has returned.
\<close>

theorem Run_empty_inputs:
  assumes "numWorkers < 2147483648" "0 \<le> wg_add 0 numWorkers"
    "Run numWorkers zero done0 [] fn schedule = Some s"
  shows "map_option outcome (Run numWorkers zero done0 [] fn [CollectExit])
           = Some (Returned (Some []) None) \<and>
         (outcome s = Running \<or> outcome s = Returned (Some []) None) \<and>
         \<not> panicked s \<and> sent s = [] \<and>
         (\<forall>k. Feed k \<notin> set schedule \<and> Work k \<notin> set schedule \<and> Send k \<notin> set schedule) \<and>
         (\<exists>more s'. Run numWorkers zero done0 [] fn (schedule @ more) = Some s' \<and>
             outcome s' = Returned (Some []) None)"
proof -
  let ?init = "Run_init numWorkers zero done0 [] :: ('a, 'b) pool"
  have sa0: "safe fn zero [] ?init" by (rule Run_init_safe)
  from assms(3) have ex: "exec fn [] schedule ?init = Some s" by (simp add: Run_def)
  have sa: "safe fn zero [] s" using Run_safe[OF assms(3)] .
  have np0: "\<not> panicked ?init" using assms(2) by (simp add: Run_init_def)
  have ret: "outcome t = Running \<or> outcome t = Returned (Some []) None"
    if "safe fn zero [] t" for t :: "('a, 'b) pool"
  proof (cases "outcome t")
    case Running then show ?thesis by simp
  next
    case (Returned out err)
    with that show ?thesis
      by (cases out) (auto simp add: safe_def outcome_inv_def outputs_inv_def)
  qed
  have 1: "map_option outcome (Run numWorkers zero done0 [] fn [CollectExit])
           = Some (Returned (Some []) None)"
    using assms(2) by (simp add: Run_def Run_init_def step_def collect_exit_def)
  have 2: "outcome s = Running \<or> outcome s = Returned (Some []) None" using ret[OF sa] .
  have np: "\<not> panicked s"
  proof (cases "0 \<le> numWorkers")
    case True
    from Run_sound[OF True assms(1,3)] show ?thesis by (simp add: sound_def)
  next
    case False
    then have "workers ?init = []" by (simp add: Run_init_def)
    from exec_no_workers[OF sa0 this np0 ex] show ?thesis by simp
  qed
  have 3: "sent s = []" using sa by (simp add: safe_def feeder_inv_def)
  have idle: "Feed k \<notin> set es \<and> Work k \<notin> set es \<and> Send k \<notin> set es"
    if "safe fn zero [] t" "exec fn [] es t = Some t'" for es k and t t' :: "('a, 'b) pool"
    using that
  proof (induction es arbitrary: t)
    case Nil then show ?case by simp
  next
    case (Cons e es)
    from Cons.prems(2) obtain t1 where 1: "step fn [] e t = Some t1" "exec fn [] es t1 = Some t'"
      by (auto split: option.splits)
    have ok: "k < length (workers t) \<Longrightarrow> worker_ok fn [] (workers t ! k)"
      using safe_worker[OF Cons.prems(1)] by simp
    have "e \<noteq> Feed k"
      using 1(1) feed_shape[of "[]" k t t1] by (auto simp add: step_def split: if_splits)
    moreover have "e \<noteq> Work k"
      using 1(1) work_shape[of fn k t t1] ok by (auto simp add: step_def split: if_splits)
    moreover have "e \<noteq> Send k"
      using 1(1) send_shape[of "[]" k t t1] ok by (auto simp add: step_def split: if_splits)
    ultimately show ?case using Cons.IH[OF step_safe[OF Cons.prems(1) 1(1)] 1(2)] by simp
  qed
  have 4: "\<forall>k. Feed k \<notin> set schedule \<and> Work k \<notin> set schedule \<and> Send k \<notin> set schedule"
    using idle[OF sa0 ex] by blast
  have 5: "\<exists>more s'. Run numWorkers zero done0 [] fn (schedule @ more) = Some s' \<and>
             outcome s' = Returned (Some []) None"
  proof (cases "outcome s = Running")
    case False
    with 2 have "outcome s = Returned (Some []) None" by simp
    with assms(3) have "Run numWorkers zero done0 [] fn (schedule @ []) = Some s \<and>
        outcome s = Returned (Some []) None" by simp
    then show ?thesis by blast
  next
    case True
    have o: "outputs s = []" using sa by (simp add: safe_def outputs_inv_def)
    let ?s' = "s\<lparr>outcome := Returned (Some (outputs s)) None\<rparr>"
    have "exec fn [] [CollectExit] s = Some ?s'"
      using True np by (simp add: step_def collect_exit_def)
    with ex have "Run numWorkers zero done0 [] fn (schedule @ [CollectExit]) = Some ?s'"
      by (simp add: Run_def exec_append)
    moreover have "outcome ?s' = Returned (Some []) None" using o by simp
    ultimately show ?thesis by blast
  qed
  from 1 2 np 3 4 5 show ?thesis by blast
qed

text \<open>The theorem at three workers and a context that is already done: by the time the
  collector returns, a worker and the feeder's \<open>close(tasks)\<close> have run. And at the
  count \<open>1 - 2^32\<close>, which leaves the counter of the wait group at 1 and starts no worker.\<close>

theorem Run_empty_inputs_witness:
  "(\<exists>s. Run 3 (0::int) True ([] :: int list) square [WorkerDone 1, CloseTasks, CollectExit] = Some s \<and>
       outcome s = Returned (Some []) None \<and> \<not> panicked s \<and> sent s = []) \<and>
   (\<exists>s. Run (- 4294967295) (0::int) True ([] :: int list) square [CloseTasks, CollectExit] = Some s \<and>
       outcome s = Returned (Some []) None \<and> \<not> panicked s \<and> workers s = [])"
proof -
  have run: "Run 3 (0::int) True ([] :: int list) square [WorkerDone 1, CloseTasks, CollectExit] =
      Some \<lparr>ctx_done = True, feeder = Closed, tasks_closes = 1, sent = [],
             workers = [AtSelect, Gone, AtSelect], wg = 2, results = [], results_closed = False,
             outputs = [], collected = 0,
             outcome = Returned (Some []) None, panicked = False\<rparr>"
    by code_simp
  have run': "Run (- 4294967295) (0::int) True ([] :: int list) square [CloseTasks, CollectExit] =
      Some \<lparr>ctx_done = True, feeder = Closed, tasks_closes = 1, sent = [],
             workers = [], wg = 1, results = [], results_closed = False,
             outputs = [], collected = 0,
             outcome = Returned (Some []) None, panicked = False\<rparr>"
    by code_simp
  have b: "(3 :: int) < 2147483648" "0 \<le> wg_add 0 3"
    "(- 4294967295 :: int) < 2147483648" "0 \<le> wg_add 0 (- 4294967295)"
    by (simp_all add: wg_add_def int32_def)
  from Run_empty_inputs[OF b(1,2) run] Run_empty_inputs[OF b(3,4) run'] run run'
  show ?thesis by simp
qed






text \<open>
  Claim C3 fails on the code. With no worker (\<open>WithWorkers(0)\<close>) and one input, the wait
  group is released at once, \<open>results\<close> is closed, and the collector, which has received
  nothing and has observed no cancellation, returns \<open>outputs\<close> with a nil error. The same
  return is taken with one worker when the context is cancelled, the worker returns,
  \<open>results\<close> is closed, and the collector's \<open>select\<close> takes the receive. The
  context-aware draft, at the same point (nothing received, one result expected, no
  context error), returns \<open>outputs\<close> with its error \<open>did not return all results\<close>.
\<close>

theorem Run_closed_results_nil_error:
  "map_option outcome (Run 0 (0::int) False [5 :: int] square [CloseResults, CollectRecv])
     = Some (Returned (Some [0]) None) \<and>
   map_option outcome
     (Run 1 (0::int) False [5 :: int] square [Cancel, WorkerDone 0, CloseResults, CollectRecv])
     = Some (Returned (Some [0]) None) \<and>
   map_sum id (draft_finish 1 None) (draft_collect [] [0 :: int] 0)
     = Inr ([0], Some (DidNotReturnAll 0 1))"
  by (intro conjI; code_simp)

text \<open>
  Claim C6 as stated fails: when the feeder stops early because the context is done it
  returns without closing \<open>tasks\<close>; the channel has then been closed zero times.
\<close>

theorem Run_feeder_stops_counterexample:
  "map_option (\<lambda>s. (feeder s, tasks_closes s))
     (Run 1 (0::int) True [5 :: int] square [FeederDone]) = Some (Stopped 0, 0)"
  by code_simp

lemma step_Stopped:
  "feeder s = Stopped i \<Longrightarrow> step fn inputs e s = Some s' \<Longrightarrow>
   feeder s' = Stopped i \<and> tasks_closes s' = tasks_closes s"
  by (cases e)
     (auto simp add: step_def split: if_splits list.splits
           dest!: cancel_shape feed_shape feeder_done_shape close_tasks_shape worker_done_shape
                  worker_closed_shape work_shape send_shape close_results_shape
                  collect_exit_shape collect_done_shape collect_recv_shape)

lemma exec_Stopped:
  "feeder s = Stopped i \<Longrightarrow> exec fn inputs es s = Some s' \<Longrightarrow>
   feeder s' = Stopped i \<and> tasks_closes s' = tasks_closes s"
proof (induction es arbitrary: s)
  case Nil then show ?case by simp
next
  case (Cons e es)
  from Cons.prems(2) obtain s1 where 1: "step fn inputs e s = Some s1" "exec fn inputs es s1 = Some s'"
    by (auto split: option.splits)
  from step_Stopped[OF Cons.prems(1) 1(1)] Cons.IH[OF _ 1(2)] show ?case by simp
qed

text \<open>A feeder that has fed all inputs does not stop early: it is about to close
  \<open>tasks\<close>, or it has closed it.\<close>

lemma step_fed_all:
  "feeder s = Feeding (length inputs) \<or> feeder s = Closed \<Longrightarrow>
   step fn inputs e s = Some s' \<Longrightarrow>
   feeder s' = Feeding (length inputs) \<or> feeder s' = Closed"
  by (cases e)
     (auto simp add: step_def split: if_splits list.splits
           dest!: cancel_shape feed_shape feeder_done_shape close_tasks_shape worker_done_shape
                  worker_closed_shape work_shape send_shape close_results_shape
                  collect_exit_shape collect_done_shape collect_recv_shape)

lemma exec_fed_all:
  "feeder s = Feeding (length inputs) \<or> feeder s = Closed \<Longrightarrow>
   exec fn inputs es s = Some s' \<Longrightarrow>
   feeder s' = Feeding (length inputs) \<or> feeder s' = Closed"
proof (induction es arbitrary: s)
  case Nil then show ?case by simp
next
  case (Cons e es)
  from Cons.prems(2) obtain s1 where 1: "step fn inputs e s = Some s1" "exec fn inputs es s1 = Some s'"
    by (auto split: option.splits)
  from Cons.IH[OF step_fed_all[OF Cons.prems(1) 1(1)] 1(2)] show ?case .
qed

lemma step_Closed:
  "feeder s = Closed \<Longrightarrow> step fn inputs e s = Some s' \<Longrightarrow> feeder s' = Closed"
  by (cases e)
     (auto simp add: step_def split: if_splits list.splits
           dest!: cancel_shape feed_shape feeder_done_shape close_tasks_shape worker_done_shape
                  worker_closed_shape work_shape send_shape close_results_shape
                  collect_exit_shape collect_done_shape collect_recv_shape)

lemma exec_Closed:
  "feeder s = Closed \<Longrightarrow> exec fn inputs es s = Some s' \<Longrightarrow> feeder s' = Closed"
proof (induction es arbitrary: s)
  case Nil then show ?case by simp
next
  case (Cons e es)
  from Cons.prems(2) obtain s1 where 1: "step fn inputs e s = Some s1" "exec fn inputs es s1 = Some s'"
    by (auto split: option.splits)
  from Cons.IH[OF step_Closed[OF Cons.prems(1) 1(1)] 1(2)] show ?case .
qed

text \<open>
  Claim C6, amended. Under every interleaving and for every worker count the feeder has
  closed \<open>tasks\<close> at most once, and the tasks handed over are at every moment a prefix of
  the indexed inputs in their original order.

  Exactly once when it has fed all inputs: a feeder that has left its loop after the last
  input has handed over all indexed inputs in input order; it can neither feed nor stop
  early; whether the context is done or not, its \<open>close(tasks)\<close> is ready (as long as
  nothing has panicked) and closes the channel, for the first time; until it has taken
  that step the channel has been closed zero times, and from then on once, in every
  continuation.

  Not at all when it stops early: that happens only when the context is done and before
  the last input was handed over, and \<open>tasks\<close> then stays open in every continuation.
\<close>

theorem Run_feeder_closes_tasks:
  assumes "Run numWorkers zero done0 inputs fn schedule = Some s"
  shows "tasks_closes s \<le> 1 \<and>
         (tasks_closes s = 1 \<longleftrightarrow> feeder s = Closed) \<and>
         (feeder s = Closed \<longrightarrow>
            sent s = zip [0..<length inputs] inputs \<and>
            (\<forall>more s'. exec fn inputs more s = Some s' \<longrightarrow>
               feeder s' = Closed \<and> tasks_closes s' = 1)) \<and>
         (feeder s = Feeding (length inputs) \<longrightarrow>
            sent s = zip [0..<length inputs] inputs \<and> tasks_closes s = 0 \<and>
            (\<forall>k. step fn inputs (Feed k) s = None) \<and> step fn inputs FeederDone s = None \<and>
            (\<not> panicked s \<longrightarrow>
               map_option (\<lambda>s'. (feeder s', tasks_closes s'))
                 (Run numWorkers zero done0 inputs fn (schedule @ [CloseTasks]))
                 = Some (Closed, 1)) \<and>
            (\<forall>more s'. exec fn inputs more s = Some s' \<longrightarrow>
               (feeder s' = Feeding (length inputs) \<and> tasks_closes s' = 0) \<or>
               (feeder s' = Closed \<and> tasks_closes s' = 1))) \<and>
         (\<forall>i. feeder s = Stopped i \<longrightarrow>
            ctx_done s \<and> i < length inputs \<and> tasks_closes s = 0 \<and>
            (\<forall>more s'. exec fn inputs more s = Some s' \<longrightarrow>
               feeder s' = Stopped i \<and> tasks_closes s' = 0)) \<and>
         prefix (sent s) (zip [0..<length inputs] inputs)"
proof -
  let ?init = "Run_init numWorkers zero done0 inputs :: ('a, 'b) pool"
  let ?all = "zip [0..<length inputs] inputs"
  have sa: "safe fn zero inputs s" using Run_safe[OF assms] .
  then have f: "feeder_inv inputs s" by (simp add: safe_def)
  from assms have ex: "exec fn inputs schedule ?init = Some s" by (simp add: Run_def)
  have closes: "tasks_closes s' = (if feeder s' = Closed then 1 else 0)"
    if "exec fn inputs more s = Some s'" for more and s' :: "('a, 'b) pool"
    using exec_safe[OF sa that] by (simp add: safe_def feeder_inv_def)
  have 1: "tasks_closes s \<le> 1" "tasks_closes s = 1 \<longleftrightarrow> feeder s = Closed"
    using f by (simp_all add: feeder_inv_def)
  have 2: "feeder s = Closed \<longrightarrow>
            sent s = ?all \<and>
            (\<forall>more s'. exec fn inputs more s = Some s' \<longrightarrow>
               feeder s' = Closed \<and> tasks_closes s' = 1)"
  proof
    assume c: "feeder s = Closed"
    with f have a: "sent s = ?all" by (simp add: feeder_inv_def)
    have "feeder s' = Closed \<and> tasks_closes s' = 1"
      if "exec fn inputs more s = Some s'" for more and s' :: "('a, 'b) pool"
      using exec_Closed[OF c that] closes[OF that] by simp
    with a show "sent s = ?all \<and>
            (\<forall>more s'. exec fn inputs more s = Some s' \<longrightarrow>
               feeder s' = Closed \<and> tasks_closes s' = 1)" by blast
  qed
  have 3: "feeder s = Feeding (length inputs) \<longrightarrow>
            sent s = ?all \<and> tasks_closes s = 0 \<and>
            (\<forall>k. step fn inputs (Feed k) s = None) \<and> step fn inputs FeederDone s = None \<and>
            (\<not> panicked s \<longrightarrow>
               map_option (\<lambda>s'. (feeder s', tasks_closes s'))
                 (Run numWorkers zero done0 inputs fn (schedule @ [CloseTasks]))
                 = Some (Closed, 1)) \<and>
            (\<forall>more s'. exec fn inputs more s = Some s' \<longrightarrow>
               (feeder s' = Feeding (length inputs) \<and> tasks_closes s' = 0) \<or>
               (feeder s' = Closed \<and> tasks_closes s' = 1))"
  proof
    assume c: "feeder s = Feeding (length inputs)"
    with f have a: "sent s = ?all" "tasks_closes s = 0" by (simp_all add: feeder_inv_def)
    have b: "\<forall>k. step fn inputs (Feed k) s = None" "step fn inputs FeederDone s = None"
      using c by (simp_all add: step_def feed_def feeder_done_def)
    have d: "\<not> panicked s \<longrightarrow>
               map_option (\<lambda>s'. (feeder s', tasks_closes s'))
                 (Run numWorkers zero done0 inputs fn (schedule @ [CloseTasks]))
                 = Some (Closed, 1)"
      using ex c a(2) by (simp add: Run_def exec_append step_def close_tasks_def)
    have "(feeder s' = Feeding (length inputs) \<and> tasks_closes s' = 0) \<or>
          (feeder s' = Closed \<and> tasks_closes s' = 1)"
      if "exec fn inputs more s = Some s'" for more and s' :: "('a, 'b) pool"
      using exec_fed_all[OF disjI1[OF c] that] closes[OF that] by auto
    with a b d show "sent s = ?all \<and> tasks_closes s = 0 \<and>
            (\<forall>k. step fn inputs (Feed k) s = None) \<and> step fn inputs FeederDone s = None \<and>
            (\<not> panicked s \<longrightarrow>
               map_option (\<lambda>s'. (feeder s', tasks_closes s'))
                 (Run numWorkers zero done0 inputs fn (schedule @ [CloseTasks]))
                 = Some (Closed, 1)) \<and>
            (\<forall>more s'. exec fn inputs more s = Some s' \<longrightarrow>
               (feeder s' = Feeding (length inputs) \<and> tasks_closes s' = 0) \<or>
               (feeder s' = Closed \<and> tasks_closes s' = 1))" by blast
  qed
  have 4: "\<forall>i. feeder s = Stopped i \<longrightarrow>
            ctx_done s \<and> i < length inputs \<and> tasks_closes s = 0 \<and>
            (\<forall>more s'. exec fn inputs more s = Some s' \<longrightarrow>
               feeder s' = Stopped i \<and> tasks_closes s' = 0)"
  proof (intro allI impI)
    fix i assume st: "feeder s = Stopped i"
    with f have a: "ctx_done s" "i < length inputs" "tasks_closes s = 0"
      by (simp_all add: feeder_inv_def)
    have "\<forall>more s'. exec fn inputs more s = Some s' \<longrightarrow>
               feeder s' = Stopped i \<and> tasks_closes s' = 0"
      using exec_Stopped[OF st] a(3) by metis
    with a show "ctx_done s \<and> i < length inputs \<and> tasks_closes s = 0 \<and>
            (\<forall>more s'. exec fn inputs more s = Some s' \<longrightarrow>
               feeder s' = Stopped i \<and> tasks_closes s' = 0)" by blast
  qed
  have "sent s = take (fed (length inputs) (feeder s)) ?all"
    using f by (simp add: feeder_inv_def)
  then have 5: "prefix (sent s) ?all"
    using take_is_prefix[of "fed (length inputs) (feeder s)" ?all] by simp
  from 1 2 3 4 5 show ?thesis by blast
qed

text \<open>The theorem at two inputs and one worker, in three states: the feeder has fed both
  inputs and closed \<open>tasks\<close> once; it has fed both inputs and the context is cancelled
  before it closes \<open>tasks\<close>, which it then does; and, in another interleaving, it has
  fed one input and then stopped because the context was cancelled.\<close>

theorem Run_feeder_closes_tasks_witness:
  "(\<exists>s. Run 1 (0::int) False [3, 4 :: int] square
          [Feed 0, Work 0, Send 0, Feed 0, CloseTasks] = Some s \<and>
        feeder s = Closed \<and> tasks_closes s = 1 \<and> sent s = [(0, 3), (1, 4)]) \<and>
   (\<exists>s. Run 1 (0::int) False [3, 4 :: int] square
          [Feed 0, Work 0, Send 0, Feed 0, Cancel] = Some s \<and>
        feeder s = Feeding 2 \<and> ctx_done s \<and> tasks_closes s = 0 \<and>
        step square [3, 4] FeederDone s = None) \<and>
   map_option (\<lambda>s'. (feeder s', tasks_closes s'))
     (Run 1 (0::int) False [3, 4 :: int] square
        ([Feed 0, Work 0, Send 0, Feed 0, Cancel] @ [CloseTasks])) = Some (Closed, 1) \<and>
   (\<exists>s. Run 1 (0::int) False [3, 4 :: int] square
          [Feed 0, Cancel, FeederDone] = Some s \<and>
        feeder s = Stopped 1 \<and> tasks_closes s = 0 \<and> sent s = [(0, 3)] \<and> ctx_done s \<and>
        prefix (sent s) (zip [0..<length [3, 4 :: int]] [3, 4]))"
proof -
  have run1: "Run 1 (0::int) False [3, 4 :: int] square
          [Feed 0, Work 0, Send 0, Feed 0, CloseTasks] =
      Some \<lparr>ctx_done = False, feeder = Closed, tasks_closes = 1, sent = [(0, 3), (1, 4)],
             workers = [Pulled 1 4], wg = 1, results = [(0, 9)], results_closed = False,
             outputs = [0, 0], collected = 0,
             outcome = Running, panicked = False\<rparr>"
    by code_simp
  have run2: "Run 1 (0::int) False [3, 4 :: int] square
          [Feed 0, Cancel, FeederDone] =
      Some \<lparr>ctx_done = True, feeder = Stopped 1, tasks_closes = 0, sent = [(0, 3)],
             workers = [Pulled 0 3], wg = 1, results = [], results_closed = False,
             outputs = [0, 0], collected = 0,
             outcome = Running, panicked = False\<rparr>"
    by code_simp
  have run3: "Run 1 (0::int) False [3, 4 :: int] square
          [Feed 0, Work 0, Send 0, Feed 0, Cancel] =
      Some \<lparr>ctx_done = True, feeder = Feeding 2, tasks_closes = 0, sent = [(0, 3), (1, 4)],
             workers = [Pulled 1 4], wg = 1, results = [(0, 9)], results_closed = False,
             outputs = [0, 0], collected = 0,
             outcome = Running, panicked = False\<rparr>"
    by code_simp
  from Run_feeder_closes_tasks[OF run1] Run_feeder_closes_tasks[OF run2]
    Run_feeder_closes_tasks[OF run3] run1 run2 run3
  show ?thesis by simp
qed

section \<open>Properties of the draft Run\<close>

lemma d_feed_shape:
  "d_feed inputs k s = Some s' \<Longrightarrow>
   \<exists>i. d_feeder s = Feeding i \<and> i < length inputs \<and> k < length (d_workers s) \<and>
       d_workers s ! k = AtSelect \<and>
       s' = s\<lparr>d_feeder := Feeding (Suc i),
              d_workers := (d_workers s)[k := Pulled i (inputs ! i)]\<rparr>"
  by (cases "d_feeder s") (simp_all add: d_feed_def split: if_splits)

lemma d_close_tasks_shape:
  "d_close_tasks inputs s = Some s' \<Longrightarrow>
   \<exists>i. d_feeder s = Feeding i \<and> length inputs \<le> i \<and> s' = s\<lparr>d_feeder := Closed\<rparr>"
  by (cases "d_feeder s") (simp_all add: d_close_tasks_def split: if_splits)

lemma d_worker_closed_shape:
  "d_worker_closed k s = Some s' \<Longrightarrow>
   k < length (d_workers s) \<and> d_workers s ! k = AtSelect \<and> d_feeder s = Closed \<and>
   s' = s\<lparr>d_workers := (d_workers s)[k := Gone], d_wg := wg_add (d_wg s) (- 1),
          d_panicked := (wg_add (d_wg s) (- 1) < 0)\<rparr>"
  by (simp add: d_worker_closed_def split: if_splits)

lemma d_work_shape:
  "d_work fn k s = Some s' \<Longrightarrow>
   \<exists>i x. k < length (d_workers s) \<and> d_workers s ! k = Pulled i x \<and>
         s' = s\<lparr>d_workers := (d_workers s)[k := AtSend i (fn x)]\<rparr>"
  by (cases "d_workers s ! k") (simp_all add: d_work_def split: if_splits)

lemma d_deliver_shape:
  "d_deliver k s = Some s' \<Longrightarrow>
   \<exists>i y. k < length (d_workers s) \<and> d_workers s ! k = AtSend i y \<and>
         (if d_results_closed s then s' = s\<lparr>d_panicked := True\<rparr>
          else d_returned s = None \<and>
               s' = s\<lparr>d_outputs := d_outputs s @ [y], d_workers := (d_workers s)[k := AtSelect]\<rparr>)"
  by (cases "d_workers s ! k") (simp_all add: d_deliver_def split: if_splits)

lemma d_close_results_shape:
  "d_close_results s = Some s' \<Longrightarrow>
   \<not> d_results_closed s \<and> d_wg s = 0 \<and> s' = s\<lparr>d_results_closed := True\<rparr>"
  by (simp add: d_close_results_def split: if_splits)

lemma d_return_shape:
  "d_return s = Some s' \<Longrightarrow>
   d_returned s = None \<and> d_results_closed s \<and> s' = s\<lparr>d_returned := Some (d_outputs s)\<rparr>"
  by (simp add: d_return_def split: if_splits)

subsection \<open>What every execution of the draft preserves\<close>

lemma d_sound_worker:
  "d_sound fn inputs s \<Longrightarrow> k < length (d_workers s) \<Longrightarrow> worker_ok fn inputs (d_workers s ! k)"
  by (simp add: d_sound_def)

lemma d_sound_open:
  "d_sound fn inputs s \<Longrightarrow> k < length (d_workers s) \<Longrightarrow> d_workers s ! k \<noteq> Gone \<Longrightarrow>
   \<not> d_results_closed s"
  using nth_mem[of k "d_workers s"] by (auto simp add: d_sound_def)

lemma d_wg_inv_upd:
  assumes "d_wg_inv s" "k < length (d_workers s)" "alive w' = alive (d_workers s ! k)"
    "d_workers s' = (d_workers s)[k := w']" "d_wg s' = d_wg s"
  shows "d_wg_inv s'"
  using assms alive_upd[OF assms(2), of w'] by (simp add: d_wg_inv_def)

lemma d_feed_sound:
  assumes "d_sound fn inputs s" "d_feed inputs k s = Some s'"
  shows "d_sound fn inputs s'"
proof -
  from d_feed_shape[OF assms(2)] obtain i where
    f: "d_feeder s = Feeding i" "i < length inputs" "k < length (d_workers s)"
       "d_workers s ! k = AtSelect"
    and s': "s' = s\<lparr>d_feeder := Feeding (Suc i),
                     d_workers := (d_workers s)[k := Pulled i (inputs ! i)]\<rparr>"
    by blast
  have op: "\<not> d_results_closed s" using d_sound_open[OF assms(1) f(3)] f(4) by simp
  have ok: "\<forall>w \<in> set (d_workers s'). worker_ok fn inputs w"
    using assms(1) f workers_upd_ok[of "d_workers s" fn inputs "Pulled i (inputs ! i)" k]
    by (simp add: s' d_sound_def)
  have wgi: "d_wg_inv s'"
    by (rule d_wg_inv_upd[where s = s and k = k and w' = "Pulled i (inputs ! i)"])
       (use assms(1) f in \<open>simp_all add: s' d_sound_def\<close>)
  show ?thesis using assms(1) f op ok wgi by (simp add: d_sound_def) (simp add: s')
qed

lemma d_close_tasks_sound:
  "d_sound fn inputs s \<Longrightarrow> d_close_tasks inputs s = Some s' \<Longrightarrow> d_sound fn inputs s'"
  by (drule d_close_tasks_shape) (auto simp add: d_sound_def d_wg_inv_def)

lemma d_worker_closed_sound:
  assumes "d_sound fn inputs s" "d_worker_closed k s = Some s'"
  shows "d_sound fn inputs s'"
proof -
  from d_worker_closed_shape[OF assms(2)] have
    f: "k < length (d_workers s)" "d_workers s ! k = AtSelect"
    and s': "s' = s\<lparr>d_workers := (d_workers s)[k := Gone], d_wg := wg_add (d_wg s) (- 1),
                     d_panicked := (wg_add (d_wg s) (- 1) < 0)\<rparr>" by simp_all
  have inv: "d_wg s = int (sum_list (map alive (d_workers s)))" "d_wg s < 2147483648"
    using assms(1) by (simp_all add: d_sound_def d_wg_inv_def)
  have upd: "int (sum_list (map alive ((d_workers s)[k := Gone]))) + 1
       = int (sum_list (map alive (d_workers s)))"
    using alive_upd[OF f(1), of Gone] f(2) by simp
  with inv have pos: "0 < d_wg s" by linarith
  have v: "wg_add (d_wg s) (- 1) = d_wg s - 1" using wg_add_done[OF pos inv(2)] .
  have w3: "d_wg s' = d_wg s - 1" "d_workers s' = (d_workers s)[k := Gone]"
    "d_panicked s' = False" "d_feeder s' = d_feeder s" "d_returned s' = d_returned s"
    "d_results_closed s' = d_results_closed s" "d_outputs s' = d_outputs s"
    using pos by (simp_all add: s' v)
  have wgi: "d_wg_inv s'" unfolding d_wg_inv_def w3 using inv upd by (intro conjI; linarith)
  have ok: "\<forall>w \<in> set (d_workers s'). worker_ok fn inputs w"
    using assms(1) workers_upd_ok[of "d_workers s" fn inputs Gone k]
    by (simp add: w3 d_sound_def)
  have cl: "d_results_closed s' \<longrightarrow> (\<forall>w \<in> set (d_workers s'). w = Gone)"
    using assms(1) workers_upd_Gone[of "d_workers s" k] by (simp add: w3 d_sound_def)
  show ?thesis using assms(1) ok cl wgi by (simp add: d_sound_def w3(3-7))
qed

lemma d_work_sound:
  assumes "d_sound fn inputs s" "d_work fn k s = Some s'"
  shows "d_sound fn inputs s'"
proof -
  from d_work_shape[OF assms(2)] obtain i x where
    f: "k < length (d_workers s)" "d_workers s ! k = Pulled i x"
    and s': "s' = s\<lparr>d_workers := (d_workers s)[k := AtSend i (fn x)]\<rparr>"
    by blast
  have op: "\<not> d_results_closed s" using d_sound_open[OF assms(1) f(1)] f(2) by simp
  have "worker_ok fn inputs (AtSend i (fn x))"
    using d_sound_worker[OF assms(1) f(1)] f(2) by simp
  then have ok: "\<forall>w \<in> set (d_workers s'). worker_ok fn inputs w"
    using assms(1) workers_upd_ok[of "d_workers s" fn inputs "AtSend i (fn x)" k]
    by (simp add: s' d_sound_def)
  have wgi: "d_wg_inv s'"
    by (rule d_wg_inv_upd[where s = s and k = k and w' = "AtSend i (fn x)"])
       (use assms(1) f in \<open>simp_all add: s' d_sound_def\<close>)
  show ?thesis using assms(1) op ok wgi by (simp add: d_sound_def) (simp add: s')
qed

lemma d_deliver_sound:
  assumes "d_sound fn inputs s" "d_deliver k s = Some s'"
  shows "d_sound fn inputs s'"
proof -
  from d_deliver_shape[OF assms(2)] obtain i y where
    f: "k < length (d_workers s)" "d_workers s ! k = AtSend i y"
    and c: "if d_results_closed s then s' = s\<lparr>d_panicked := True\<rparr>
          else d_returned s = None \<and>
               s' = s\<lparr>d_outputs := d_outputs s @ [y], d_workers := (d_workers s)[k := AtSelect]\<rparr>"
    by blast
  have op: "\<not> d_results_closed s" using d_sound_open[OF assms(1) f(1)] f(2) by simp
  with c have r: "d_returned s = None"
    and s': "s' = s\<lparr>d_outputs := d_outputs s @ [y], d_workers := (d_workers s)[k := AtSelect]\<rparr>"
    by simp_all
  have ok: "\<forall>w \<in> set (d_workers s'). worker_ok fn inputs w"
    using assms(1) workers_upd_ok[of "d_workers s" fn inputs AtSelect k]
    by (simp add: s' d_sound_def)
  have wgi: "d_wg_inv s'"
    by (rule d_wg_inv_upd[where s = s and k = k and w' = AtSelect])
       (use assms(1) f in \<open>simp_all add: s' d_sound_def\<close>)
  show ?thesis using assms(1) op r ok wgi by (simp add: d_sound_def) (simp add: s')
qed

lemma d_close_results_sound:
  assumes "d_sound fn inputs s" "d_close_results s = Some s'"
  shows "d_sound fn inputs s'"
proof -
  from d_close_results_shape[OF assms(2)] have
    z: "d_wg s = 0" and s': "s' = s\<lparr>d_results_closed := True\<rparr>" by simp_all
  from assms(1) z have "sum_list (map alive (d_workers s)) = 0"
    by (simp add: d_sound_def d_wg_inv_def)
  from alive_none[OF this] have g: "\<forall>w \<in> set (d_workers s). w = Gone" .
  have wgi: "d_wg_inv s'" using assms(1) by (simp add: s' d_sound_def d_wg_inv_def)
  show ?thesis using assms(1) g wgi by (simp add: d_sound_def) (simp add: s')
qed

lemma d_return_sound:
  "d_sound fn inputs s \<Longrightarrow> d_return s = Some s' \<Longrightarrow> d_sound fn inputs s'"
  by (drule d_return_shape) (auto simp add: d_sound_def d_wg_inv_def)

lemma d_step_sound:
  "d_sound fn inputs s \<Longrightarrow> d_step fn inputs e s = Some s' \<Longrightarrow> d_sound fn inputs s'"
  by (cases e)
     (auto simp add: d_step_def split: if_splits
           intro: d_feed_sound d_close_tasks_sound d_worker_closed_sound d_work_sound
                  d_deliver_sound d_close_results_sound d_return_sound)

lemma d_exec_sound:
  "d_sound fn inputs s \<Longrightarrow> d_exec fn inputs es s = Some s' \<Longrightarrow> d_sound fn inputs s'"
proof (induction es arbitrary: s)
  case Nil then show ?case by simp
next
  case (Cons e es)
  then show ?case by (auto split: option.splits dest: d_step_sound)
qed

lemma Run_draft_init_sound:
  "0 \<le> numWorkers \<Longrightarrow> numWorkers < 2147483648 \<Longrightarrow>
   d_sound fn inputs (Run_draft_init numWorkers)"
  by (simp add: Run_draft_init_def d_sound_def d_wg_inv_def wg_add_first sum_list_replicate)

lemma d_exec_append:
  "d_exec fn inputs (es @ es') s =
     (case d_exec fn inputs es s of None \<Rightarrow> None | Some s' \<Rightarrow> d_exec fn inputs es' s')"
  by (induction es arbitrary: s) (auto split: option.splits)

subsection \<open>Every event of the draft lowers the number of events still to come\<close>

lemma d_step_todo:
  assumes "d_step fn inputs e s = Some s'"
  shows "d_todo inputs s' < d_todo inputs s"
proof -
  from assms have np: "\<not> d_panicked s" by (simp add: d_step_def split: if_splits)
  show ?thesis
  proof (cases e)
    case (DFeed k)
    with assms np have "d_feed inputs k s = Some s'" by (simp add: d_step_def)
    from d_feed_shape[OF this] obtain i where
      f: "d_feeder s = Feeding i" "i < length inputs" "k < length (d_workers s)"
         "d_workers s ! k = AtSelect"
      and s': "s' = s\<lparr>d_feeder := Feeding (Suc i),
                       d_workers := (d_workers s)[k := Pulled i (inputs ! i)]\<rparr>"
      by blast
    from sum_list_map_upd[OF f(3), of d_worker_cost "Pulled i (inputs ! i)"] f
    show ?thesis by (simp add: s' d_todo_def)
  next
    case DCloseTasks
    with assms np have "d_close_tasks inputs s = Some s'" by (simp add: d_step_def)
    from d_close_tasks_shape[OF this] show ?thesis by (auto simp add: d_todo_def)
  next
    case (DWorkerClosed k)
    with assms np have "d_worker_closed k s = Some s'" by (simp add: d_step_def)
    from d_worker_closed_shape[OF this] have
      f: "k < length (d_workers s)" "d_workers s ! k = AtSelect"
      and s': "s' = s\<lparr>d_workers := (d_workers s)[k := Gone], d_wg := wg_add (d_wg s) (- 1),
                     d_panicked := (wg_add (d_wg s) (- 1) < 0)\<rparr>" by simp_all
    from sum_list_map_upd[OF f(1), of d_worker_cost Gone] f(2) np
    show ?thesis by (simp add: s' d_todo_def)
  next
    case (DWork k)
    with assms np have "d_work fn k s = Some s'" by (simp add: d_step_def)
    from d_work_shape[OF this] obtain i x where
      f: "k < length (d_workers s)" "d_workers s ! k = Pulled i x"
      and s': "s' = s\<lparr>d_workers := (d_workers s)[k := AtSend i (fn x)]\<rparr>"
      by blast
    from sum_list_map_upd[OF f(1), of d_worker_cost "AtSend i (fn x)"] f(2)
    show ?thesis by (simp add: s' d_todo_def)
  next
    case (DDeliver k)
    with assms np have "d_deliver k s = Some s'" by (simp add: d_step_def)
    from d_deliver_shape[OF this] obtain i y where
      f: "k < length (d_workers s)" "d_workers s ! k = AtSend i y"
      and c: "if d_results_closed s then s' = s\<lparr>d_panicked := True\<rparr>
            else d_returned s = None \<and>
                 s' = s\<lparr>d_outputs := d_outputs s @ [y], d_workers := (d_workers s)[k := AtSelect]\<rparr>"
      by blast
    show ?thesis
    proof (cases "d_results_closed s")
      case True
      with c np show ?thesis by (simp add: d_todo_def)
    next
      case False
      with c have s': "s' = s\<lparr>d_outputs := d_outputs s @ [y],
                               d_workers := (d_workers s)[k := AtSelect]\<rparr>" by simp
      from sum_list_map_upd[OF f(1), of d_worker_cost AtSelect] f(2)
      show ?thesis by (simp add: s' d_todo_def)
    qed
  next
    case DCloseResults
    with assms np have "d_close_results s = Some s'" by (simp add: d_step_def)
    from d_close_results_shape[OF this] show ?thesis by (simp add: d_todo_def)
  next
    case DReturn
    with assms np have "d_return s = Some s'" by (simp add: d_step_def)
    from d_return_shape[OF this] show ?thesis by (simp add: d_todo_def)
  qed
qed

lemma d_exec_todo:
  "d_exec fn inputs es s = Some s' \<Longrightarrow> length es + d_todo inputs s' \<le> d_todo inputs s"
proof (induction es arbitrary: s)
  case Nil then show ?case by simp
next
  case (Cons e es)
  from Cons.prems obtain s1 where 1: "d_step fn inputs e s = Some s1" "d_exec fn inputs es s1 = Some s'"
    by (auto split: option.splits)
  from Cons.IH[OF 1(2)] d_step_todo[OF 1(1)] show ?case by simp
qed

lemma d_todo_init:
  "d_todo inputs (Run_draft_init numWorkers) \<le> 3 * length inputs + nat numWorkers + 4"
  by (simp add: d_todo_def Run_draft_init_def sum_list_replicate)

subsection \<open>The draft does not get stuck\<close>

lemma d_progress:
  assumes "d_sound fn inputs s" "d_returned s = None"
  shows "\<exists>e s'. d_step fn inputs e s = Some s'"
proof -
  have np: "\<not> d_panicked s" using assms(1) by (simp add: d_sound_def)
  show ?thesis
  proof (cases "d_results_closed s")
    case True
    with assms(2) np have "d_step fn inputs DReturn s \<noteq> None"
      by (simp add: d_step_def d_return_def)
    then show ?thesis by blast
  next
    case op: False
    show ?thesis
    proof (cases "\<forall>w \<in> set (d_workers s). w = Gone")
      case True
      from alive_all_Gone[OF this] assms(1) have "d_wg s = 0"
        by (simp add: d_sound_def d_wg_inv_def)
      with op np have "d_step fn inputs DCloseResults s \<noteq> None"
        by (simp add: d_step_def d_close_results_def)
      then show ?thesis by blast
    next
      case False
      from not_all_Gone[OF this] obtain k where
        k: "k < length (d_workers s)" "d_workers s ! k \<noteq> Gone" by blast
      show ?thesis
      proof (cases "d_workers s ! k")
        case Gone with k show ?thesis by simp
      next
        case (Pulled i x)
        with k np have "d_step fn inputs (DWork k) s \<noteq> None"
          by (simp add: d_step_def d_work_def)
        then show ?thesis by blast
      next
        case (AtSend i y)
        with k op assms(2) np have "d_step fn inputs (DDeliver k) s \<noteq> None"
          by (simp add: d_step_def d_deliver_def)
        then show ?thesis by blast
      next
        case AtSelect
        show ?thesis
        proof (cases "d_feeder s")
          case (Feeding i)
          show ?thesis
          proof (cases "i < length inputs")
            case True
            with Feeding AtSelect k np have "d_step fn inputs (DFeed k) s \<noteq> None"
              by (simp add: d_step_def d_feed_def)
            then show ?thesis by blast
          next
            case False
            with Feeding np have "d_step fn inputs DCloseTasks s \<noteq> None"
              by (simp add: d_step_def d_close_tasks_def)
            then show ?thesis by blast
          qed
        next
          case Closed
          with AtSelect k np have "d_step fn inputs (DWorkerClosed k) s \<noteq> None"
            by (simp add: d_step_def d_worker_closed_def)
          then show ?thesis by blast
        next
          case (Stopped i)
          with assms(1) show ?thesis by (simp add: d_sound_def)
        qed
      qed
    qed
  qed
qed

lemma d_returns:
  "d_sound fn inputs s \<Longrightarrow>
   \<exists>more s'. d_exec fn inputs more s = Some s' \<and> d_returned s' \<noteq> None"
proof (induction "d_todo inputs s" arbitrary: s rule: less_induct)
  case less
  show ?case
  proof (cases "d_returned s = None")
    case False
    then have "d_exec fn inputs [] s = Some s \<and> d_returned s \<noteq> None" by simp
    then show ?thesis by blast
  next
    case True
    from d_progress[OF less.prems True] obtain e s1 where
      e: "d_step fn inputs e s = Some s1" by blast
    from less.hyps[OF d_step_todo[OF e] d_step_sound[OF less.prems e]] obtain more s' where
      m: "d_exec fn inputs more s1 = Some s'" "d_returned s' \<noteq> None" by blast
    from e m have "d_exec fn inputs (e # more) s = Some s' \<and> d_returned s' \<noteq> None" by simp
    then show ?thesis by blast
  qed
qed

subsection \<open>The draft loses and invents no output\<close>

lemma owed_all_Gone:
  "\<forall>w \<in> set ws. w = Gone \<Longrightarrow>
   sum_list (map (\<lambda>w. mset (owed fn w)) ws) = {#} \<and> concat (map (owed fn) ws) = []"
  by (induction ws) auto

lemma single_upd: "length ws = 1 \<Longrightarrow> k < length ws \<Longrightarrow> ws = [ws ! k] \<and> ws[k := w] = [w]"
  by (cases ws) auto

lemma d_steady_upd:
  assumes "d_steady fn inputs s" "k < length (d_workers s)"
    "d_workers s' = (d_workers s)[k := w']"
    "w' \<noteq> Gone \<or> d_feeder s' = Closed"
    "d_feeder s = Closed \<longrightarrow> d_feeder s' = Closed"
    "mset (d_outputs s') + mset (owed fn w') + mset (map fn (take (fed (length inputs) (d_feeder s)) inputs))
       = mset (d_outputs s) + mset (owed fn (d_workers s ! k)) +
         mset (map fn (take (fed (length inputs) (d_feeder s')) inputs))"
    "d_outputs s @ owed fn (d_workers s ! k) = map fn (take (fed (length inputs) (d_feeder s)) inputs)
       \<longrightarrow> d_outputs s' @ owed fn w' = map fn (take (fed (length inputs) (d_feeder s')) inputs)"
  shows "d_steady fn inputs s'"
proof -
  let ?f = "\<lambda>w. mset (owed fn w)"
  let ?old = "take (fed (length inputs) (d_feeder s)) inputs"
  let ?new = "take (fed (length inputs) (d_feeder s')) inputs"
  have 1: "d_workers s' \<noteq> []" using assms(1,3) by (simp add: d_steady_def)
  have A: "mset (d_outputs s) + sum_list (map ?f (d_workers s)) = mset (map fn ?old)"
    using assms(1) by (simp add: d_steady_def)
  have upd: "sum_list (map ?f (d_workers s')) + ?f (d_workers s ! k)
       = sum_list (map ?f (d_workers s)) + ?f w'"
    using sum_list_map_upd[OF assms(2), of ?f w'] assms(3) by simp
  have "mset (d_outputs s') + sum_list (map ?f (d_workers s')) + (?f (d_workers s ! k) + mset (map fn ?old))
        = mset (d_outputs s') + ?f w' + mset (map fn ?old) + sum_list (map ?f (d_workers s))"
    using upd by (simp add: ac_simps)
  also have "\<dots> = mset (d_outputs s) + ?f (d_workers s ! k) + mset (map fn ?new)
        + sum_list (map ?f (d_workers s))"
    using assms(6) by simp
  also have "\<dots> = mset (map fn ?new) + (?f (d_workers s ! k) + mset (map fn ?old))"
    using A by (simp add: ac_simps)
  finally have 2: "mset (d_outputs s') + sum_list (map ?f (d_workers s')) = mset (map fn ?new)"
    by simp
  have 3: "length (d_workers s') = 1 \<longrightarrow>
        d_outputs s' @ concat (map (owed fn) (d_workers s')) = map fn ?new"
  proof
    assume "length (d_workers s') = 1"
    then have l: "length (d_workers s) = 1" using assms(3) by simp
    from single_upd[OF l assms(2), of w'] have
      ws: "d_workers s = [d_workers s ! k]" "d_workers s' = [w']" using assms(3) by simp_all
    from assms(1) l have "d_outputs s @ concat (map (owed fn) (d_workers s)) = map fn ?old"
      by (simp add: d_steady_def)
    with ws(1) have "d_outputs s @ owed fn (d_workers s ! k) = map fn ?old"
      by (metis append_Nil2 concat.simps(1) concat.simps(2) list.simps(8) list.simps(9))
    with assms(7) ws(2) show "d_outputs s' @ concat (map (owed fn) (d_workers s')) = map fn ?new"
      by simp
  qed
  have 4: "Gone \<in> set (d_workers s') \<longrightarrow> d_feeder s' = Closed"
  proof
    assume g: "Gone \<in> set (d_workers s')"
    show "d_feeder s' = Closed"
    proof (cases "w' = Gone")
      case True with assms(4) show ?thesis by simp
    next
      case False
      with g assms(3) Gone_upd[of "d_workers s" k w'] have "Gone \<in> set (d_workers s)" by simp
      with assms(1,5) show ?thesis by (simp add: d_steady_def)
    qed
  qed
  from 1 2 3 4 show ?thesis by (simp add: d_steady_def)
qed

lemma d_step_steady:
  assumes "d_steady fn inputs s" "d_sound fn inputs s" "d_step fn inputs e s = Some s'"
  shows "d_steady fn inputs s'"
proof -
  from assms(3) have np: "\<not> d_panicked s" by (simp add: d_step_def split: if_splits)
  show ?thesis
  proof (cases e)
    case (DFeed k)
    with assms np have "d_feed inputs k s = Some s'" by (simp add: d_step_def)
    from d_feed_shape[OF this] obtain i where
      f: "d_feeder s = Feeding i" "i < length inputs" "k < length (d_workers s)"
         "d_workers s ! k = AtSelect"
      and s': "s' = s\<lparr>d_feeder := Feeding (Suc i),
                       d_workers := (d_workers s)[k := Pulled i (inputs ! i)]\<rparr>"
      by blast
    show ?thesis
      by (rule d_steady_upd[OF assms(1) f(3), of _ "Pulled i (inputs ! i)"])
         (simp_all add: s' f take_Suc_conv_app_nth)
  next
    case DCloseTasks
    with assms np have "d_close_tasks inputs s = Some s'" by (simp add: d_step_def)
    from d_close_tasks_shape[OF this] obtain i where
      f: "d_feeder s = Feeding i" "length inputs \<le> i" and s': "s' = s\<lparr>d_feeder := Closed\<rparr>"
      by blast
    from assms(1) f show ?thesis by (simp add: s' d_steady_def)
  next
    case (DWorkerClosed k)
    with assms np have "d_worker_closed k s = Some s'" by (simp add: d_step_def)
    from d_worker_closed_shape[OF this] have
      f: "k < length (d_workers s)" "d_workers s ! k = AtSelect" "d_feeder s = Closed"
      and s': "s' = s\<lparr>d_workers := (d_workers s)[k := Gone], d_wg := wg_add (d_wg s) (- 1),
                     d_panicked := (wg_add (d_wg s) (- 1) < 0)\<rparr>" by simp_all
    show ?thesis
      by (rule d_steady_upd[OF assms(1) f(1), of _ Gone]) (simp_all add: s' f)
  next
    case (DWork k)
    with assms np have "d_work fn k s = Some s'" by (simp add: d_step_def)
    from d_work_shape[OF this] obtain i x where
      f: "k < length (d_workers s)" "d_workers s ! k = Pulled i x"
      and s': "s' = s\<lparr>d_workers := (d_workers s)[k := AtSend i (fn x)]\<rparr>"
      by blast
    show ?thesis
      by (rule d_steady_upd[OF assms(1) f(1), of _ "AtSend i (fn x)"]) (simp_all add: s' f)
  next
    case (DDeliver k)
    with assms np have "d_deliver k s = Some s'" by (simp add: d_step_def)
    from d_deliver_shape[OF this] obtain i y where
      f: "k < length (d_workers s)" "d_workers s ! k = AtSend i y"
      and c: "if d_results_closed s then s' = s\<lparr>d_panicked := True\<rparr>
            else d_returned s = None \<and>
                 s' = s\<lparr>d_outputs := d_outputs s @ [y], d_workers := (d_workers s)[k := AtSelect]\<rparr>"
      by blast
    have "\<not> d_results_closed s" using d_sound_open[OF assms(2) f(1)] f(2) by simp
    with c have s': "s' = s\<lparr>d_outputs := d_outputs s @ [y],
                             d_workers := (d_workers s)[k := AtSelect]\<rparr>" by simp
    show ?thesis
      by (rule d_steady_upd[OF assms(1) f(1), of _ AtSelect]) (simp_all add: s' f)
  next
    case DCloseResults
    with assms np have "d_close_results s = Some s'" by (simp add: d_step_def)
    from d_close_results_shape[OF this] assms(1) show ?thesis by (simp add: d_steady_def)
  next
    case DReturn
    with assms np have "d_return s = Some s'" by (simp add: d_step_def)
    from d_return_shape[OF this] assms(1) show ?thesis by (simp add: d_steady_def)
  qed
qed

lemma d_step_length:
  "d_step fn inputs e s = Some s' \<Longrightarrow> length (d_workers s') = length (d_workers s)"
  by (cases e)
     (auto simp add: d_step_def split: if_splits
           dest!: d_feed_shape d_close_tasks_shape d_worker_closed_shape d_work_shape
                  d_deliver_shape d_close_results_shape d_return_shape)

lemma d_exec_steady:
  "d_steady fn inputs s \<Longrightarrow> d_sound fn inputs s \<Longrightarrow> d_exec fn inputs es s = Some s' \<Longrightarrow>
   d_steady fn inputs s' \<and> length (d_workers s') = length (d_workers s)"
proof (induction es arbitrary: s)
  case Nil then show ?case by simp
next
  case (Cons e es)
  from Cons.prems(3) obtain s1 where 1: "d_step fn inputs e s = Some s1" "d_exec fn inputs es s1 = Some s'"
    by (auto split: option.splits)
  from Cons.IH[OF d_step_steady[OF Cons.prems(1,2) 1(1)] d_step_sound[OF Cons.prems(2) 1(1)] 1(2)]
    d_step_length[OF 1(1)]
  show ?case by simp
qed

lemma sum_list_replicate_empty: "sum_list (replicate n ({#} :: 'b multiset)) = {#}"
  by (induction n) auto

lemma Run_draft_init_steady:
  "1 \<le> numWorkers \<Longrightarrow> numWorkers < 2147483648 \<Longrightarrow>
   d_steady fn inputs (Run_draft_init numWorkers)"
  by (auto simp add: Run_draft_init_def d_steady_def sum_list_replicate_empty wg_add_first)

lemma d_steady_returned:
  assumes "d_steady fn inputs s" "d_sound fn inputs s" "d_returned s = Some out"
  shows "mset out = mset (map fn inputs) \<and> length out = length inputs \<and>
         (length (d_workers s) = 1 \<longrightarrow> out = map fn inputs)"
proof -
  from assms(2,3) have o: "out = d_outputs s" and g: "\<forall>w \<in> set (d_workers s). w = Gone"
    by (simp_all add: d_sound_def)
  from assms(1) have "d_workers s \<noteq> []" by (simp add: d_steady_def)
  with g have "Gone \<in> set (d_workers s)" by (cases "d_workers s") auto
  with assms(1) have cl: "d_feeder s = Closed" by (simp add: d_steady_def)
  from owed_all_Gone[OF g, of fn] have
    e: "sum_list (map (\<lambda>w. mset (owed fn w)) (d_workers s)) = {#}"
    and c: "concat (map (owed fn) (d_workers s)) = []" by blast+
  from assms(1) have A: "mset (d_outputs s) + sum_list (map (\<lambda>w. mset (owed fn w)) (d_workers s))
       = mset (map fn (take (fed (length inputs) (d_feeder s)) inputs))"
    and B: "length (d_workers s) = 1 \<longrightarrow>
        d_outputs s @ concat (map (owed fn) (d_workers s))
          = map fn (take (fed (length inputs) (d_feeder s)) inputs)"
    unfolding d_steady_def by blast+
  from A e cl o have m: "mset out = mset (map fn inputs)" by simp
  from B have "length (d_workers s) = 1 \<longrightarrow>
      d_outputs s = map fn (take (fed (length inputs) (d_feeder s)) inputs)"
    by (simp only: c append_Nil2)
  with cl o have l: "length (d_workers s) = 1 \<longrightarrow> out = map fn inputs" by simp
  from m have "length out = length (map fn inputs)" by (rule mset_eq_length)
  with m l show ?thesis by simp
qed

subsection \<open>The claim about the draft Run\<close>

text \<open>
  Claim C8, as stated, for every worker count from 1 on: it fails at \<open>2^31\<close> workers.
  \<open>wg.Add(2147483648)\<close> leaves the 32-bit counter of the wait group at \<open>-2^31\<close> and
  panics (part_001, line 159): on the inputs \<open>[1, 2]\<close> the draft \<open>Run\<close> has panicked
  before any goroutine is started and has returned nothing, and no event can follow.
  Above that the counter no longer counts the workers: \<open>wg.Add(4294967296)\<close> leaves it
  at 0, so \<open>wg.Wait()\<close> returns at once, \<open>results\<close> is closed while the \<open>2^32\<close>
  workers wait for tasks, and the draft returns the empty slice.
\<close>

theorem Run_draft_wait_group_counterexample:
  "map_option (\<lambda>s. (d_panicked s, d_returned s, d_workers s, d_wg s))
     (Run_draft 2147483648 [1, 2 :: int] square [])
     = Some (True, None, [], - 2147483648) \<and>
   list_all (\<lambda>e. Run_draft 2147483648 [1, 2 :: int] square [e] = None)
     [DFeed 0, DCloseTasks, DWorkerClosed 0, DWork 0, DDeliver 0, DCloseResults, DReturn] \<and>
   map_option d_returned (Run_draft 4294967296 [1, 2 :: int] square [DCloseResults, DReturn])
     = Some (Some [])"
proof (intro conjI)
  show "map_option (\<lambda>s. (d_panicked s, d_returned s, d_workers s, d_wg s))
     (Run_draft 2147483648 [1, 2 :: int] square [])
     = Some (True, None, [], - 2147483648)"
    by code_simp
  show "list_all (\<lambda>e. Run_draft 2147483648 [1, 2 :: int] square [e] = None)
     [DFeed 0, DCloseTasks, DWorkerClosed 0, DWork 0, DDeliver 0, DCloseResults, DReturn]"
    by code_simp
  show "map_option d_returned (Run_draft 4294967296 [1, 2 :: int] square [DCloseResults, DReturn])
     = Some (Some [])"
    by (simp add: Run_draft_def Run_draft_init_def d_step_def d_close_results_def d_return_def
                  wg_add_def int32_def)
qed

text \<open>
  Claim C8, for the worker counts the wait group can count. Let the draft \<open>Run\<close> be
  called with at least one and at most \<open>2^31 - 1\<close> workers. Under every interleaving: if
  it has returned a slice, the slice has the length of the inputs and is, as a multiset,
  the multiset of \<open>fn\<close> applied to each input, and with exactly one worker it is
  \<open>map fn inputs\<close>, in order; nothing has panicked; the interleaving has at most
  \<open>3 * len(inputs) + NumWorkers + 4\<close> events and can always be continued to a state in
  which \<open>Run\<close> has returned. With two workers the order is not guaranteed: on the inputs
  \<open>[1, 2]\<close> with \<open>fn(x) = x*x\<close> there is an interleaving that returns \<open>[4, 1]\<close>.
\<close>

theorem Run_draft_results:
  "(1 \<le> numWorkers \<and> numWorkers < 2147483648 \<and>
    Run_draft numWorkers inputs fn schedule = Some s \<longrightarrow>
      (\<forall>out. d_returned s = Some out \<longrightarrow>
         length out = length inputs \<and> mset out = mset (map fn inputs) \<and>
         (numWorkers = 1 \<longrightarrow> out = map fn inputs)) \<and>
      \<not> d_panicked s \<and>
      length schedule \<le> 3 * length inputs + nat numWorkers + 4 \<and>
      (\<exists>more s'. Run_draft numWorkers inputs fn (schedule @ more) = Some s' \<and>
          d_returned s' \<noteq> None)) \<and>
   map_option d_returned
     (Run_draft 2 [1, 2 :: int] square
        [DFeed 0, DFeed 1, DWork 0, DWork 1, DDeliver 1, DDeliver 0, DCloseTasks,
         DWorkerClosed 0, DWorkerClosed 1, DCloseResults, DReturn])
     = Some (Some [4, 1])"
proof (intro conjI impI)
  assume a: "1 \<le> numWorkers \<and> numWorkers < 2147483648 \<and>
    Run_draft numWorkers inputs fn schedule = Some s"
  let ?init = "Run_draft_init numWorkers :: ('a, 'b) draft"
  from a have w: "0 \<le> numWorkers" "1 \<le> numWorkers" "numWorkers < 2147483648"
    and ex: "d_exec fn inputs schedule ?init = Some s" by (simp_all add: Run_draft_def)
  have so0: "d_sound fn inputs ?init" using Run_draft_init_sound[OF w(1,3)] .
  have so: "d_sound fn inputs s" using d_exec_sound[OF so0 ex] .
  have st: "d_steady fn inputs s" and len: "length (d_workers s) = length (d_workers ?init)"
    using d_exec_steady[OF Run_draft_init_steady[OF w(2,3)] so0 ex]
    by simp_all
  have one: "numWorkers = 1 \<Longrightarrow> length (d_workers s) = 1"
    using len by (simp add: Run_draft_init_def wg_add_first)
  show "\<forall>out. d_returned s = Some out \<longrightarrow>
         length out = length inputs \<and> mset out = mset (map fn inputs) \<and>
         (numWorkers = 1 \<longrightarrow> out = map fn inputs)"
    using d_steady_returned[OF st so] one by blast
  show "\<not> d_panicked s" using so by (simp add: d_sound_def)
  have "d_todo inputs ?init \<le> 3 * length inputs + nat numWorkers + 4" by (rule d_todo_init)
  with d_exec_todo[OF ex] show "length schedule \<le> 3 * length inputs + nat numWorkers + 4"
    by linarith
  from d_returns[OF so] obtain more s' where
    m: "d_exec fn inputs more s = Some s'" "d_returned s' \<noteq> None" by blast
  have "Run_draft numWorkers inputs fn (schedule @ more) = Some s'"
    using ex m(1) by (simp add: Run_draft_def d_exec_append)
  with m(2) show "\<exists>more s'. Run_draft numWorkers inputs fn (schedule @ more) = Some s' \<and>
          d_returned s' \<noteq> None" by blast
next
  show "map_option d_returned
     (Run_draft 2 [1, 2 :: int] square
        [DFeed 0, DFeed 1, DWork 0, DWork 1, DDeliver 1, DDeliver 0, DCloseTasks,
         DWorkerClosed 0, DWorkerClosed 1, DCloseResults, DReturn])
     = Some (Some [4, 1])"
    by code_simp
qed

text \<open>The theorem at the inputs \<open>[1, 2]\<close>: with one worker the draft returns \<open>[1, 4]\<close>;
  with two workers, under the interleaving above, it returns \<open>[4, 1]\<close>, which has the
  same elements.\<close>

theorem Run_draft_results_witness:
  "(\<exists>s. Run_draft 1 [1, 2 :: int] square
          [DFeed 0, DWork 0, DDeliver 0, DFeed 0, DWork 0, DDeliver 0, DCloseTasks,
           DWorkerClosed 0, DCloseResults, DReturn] = Some s \<and>
        d_returned s = Some [1, 4] \<and> \<not> d_panicked s) \<and>
   (\<exists>s. Run_draft 2 [1, 2 :: int] square
          [DFeed 0, DFeed 1, DWork 0, DWork 1, DDeliver 1, DDeliver 0, DCloseTasks,
           DWorkerClosed 0, DWorkerClosed 1, DCloseResults, DReturn] = Some s \<and>
        d_returned s = Some [4, 1] \<and> mset [4, 1] = mset (map square [1, 2]))"
proof -
  have run1: "Run_draft 1 [1, 2 :: int] square
          [DFeed 0, DWork 0, DDeliver 0, DFeed 0, DWork 0, DDeliver 0, DCloseTasks,
           DWorkerClosed 0, DCloseResults, DReturn] =
      Some \<lparr>d_feeder = Closed, d_workers = [Gone], d_wg = 0, d_results_closed = True,
             d_outputs = [1, 4], d_returned = Some [1, 4], d_panicked = False\<rparr>"
    by code_simp
  have run2: "Run_draft 2 [1, 2 :: int] square
          [DFeed 0, DFeed 1, DWork 0, DWork 1, DDeliver 1, DDeliver 0, DCloseTasks,
           DWorkerClosed 0, DWorkerClosed 1, DCloseResults, DReturn] =
      Some \<lparr>d_feeder = Closed, d_workers = [Gone, Gone], d_wg = 0, d_results_closed = True,
             d_outputs = [4, 1], d_returned = Some [4, 1], d_panicked = False\<rparr>"
    by code_simp
  have b: "(1 :: int) < 2147483648" "(2 :: int) < 2147483648" by simp_all
  from Run_draft_results[THEN conjunct1, rule_format, OF conjI, OF _ conjI, OF _ b(1) run1]
       Run_draft_results[THEN conjunct1, rule_format, OF conjI, OF _ conjI, OF _ b(2) run2]
       run1 run2
  show ?thesis by (simp add: square_def)
qed

end
